theory Spec2Isabelle
  imports Complex_Main "HOL-Library.Multiset"
begin

section \<open>Go's integers and floating-point numbers\<close>

text \<open>
  Go's \<open>int\<close> is read as on a 64-bit target. The counters of the program (loop indices,
  lengths, the number of fields of a record, and \<open>sum\<close>, the number of fields of the
  records of one trial) count what is read one by one: a run in which one of them
  reached \<open>2\<^sup>6\<^sup>3\<close> would not end within years, and they are kept as integers.
  \<open>squaresum\<close> adds up squares and leaves the range of a signed 64-bit integer on
  records of some \<open>10\<^sup>9\<close> fields: it wraps round.
\<close>

definition wrap64 :: "int \<Rightarrow> int" where
  "wrap64 i = (i + 2 ^ 63) mod 2 ^ 64 - 2 ^ 63"

text \<open>
  \<open>float64\<close>. The finite values are the reals \<open>m * 2\<^sup>e\<close> with an integer \<open>m\<close> of less than
  \<open>2\<^sup>5\<^sup>3\<close> in magnitude. Conversion from \<open>int\<close> and the operations \<open>/\<close>, \<open>*\<close>, \<open>-\<close> and
  \<open>math.Sqrt\<close> return the exact result rounded to the nearest such value, a tie going to
  the even \<open>m\<close> (\<open>rnd\<close>); each operation is rounded on its own, as in the code compiled
  for amd64. The bounds of the exponent are left out: with \<open>sum\<close> and \<open>squaresum\<close> in the
  range of a 64-bit integer, every non-zero value computed below has a magnitude
  between \<open>2\<^sup>-\<^sup>2\<^sup>0\<^sup>0\<close> and \<open>2\<^sup>2\<^sup>0\<^sup>0\<close>. The values that are not numbers are the infinities
  and \<open>NaN\<close>; \<open>math.Sqrt\<close> of a negative number is \<open>NaN\<close>.
\<close>

definition round_even :: "real \<Rightarrow> int" where
  "round_even y =
     (let f = \<lfloor>y\<rfloor> in
      if y - of_int f < 1 / 2 then f
      else if 1 / 2 < y - of_int f then f + 1
      else if even f then f else f + 1)"

definition rnd :: "real \<Rightarrow> real" where
  "rnd x =
     (if x = 0 then 0
      else let q = 2 powr (of_int \<lfloor>log 2 \<bar>x\<bar>\<rfloor> - 52) in q * of_int (round_even (x / q)))"

datatype float64 = Num real | PInf | NInf | NaN

text \<open>The conversion \<open>float64(i)\<close>.\<close>

definition float64_of :: "int \<Rightarrow> real" where
  "float64_of i = rnd (of_int i)"

definition Sqrt :: "real \<Rightarrow> float64" where
  "Sqrt x = (if x < 0 then NaN else Num (rnd (sqrt x)))"

text \<open>
  The quotient \<open>x / y\<close> and the comparison \<open>x < y\<close> of \<open>float64\<close> values, for a divisor
  that is a finite number (a zero divisor is the positive zero). A comparison with
  \<open>NaN\<close> is false.
\<close>

definition float64_div :: "float64 \<Rightarrow> real \<Rightarrow> float64" where
  "float64_div x y =
     (case x of
        Num a \<Rightarrow>
          if y = 0 then (if a = 0 then NaN else if 0 < a then PInf else NInf)
          else Num (rnd (a / y))
      | PInf \<Rightarrow> if y < 0 then NInf else PInf
      | NInf \<Rightarrow> if y < 0 then PInf else NInf
      | NaN \<Rightarrow> NaN)"

fun float64_less :: "float64 \<Rightarrow> float64 \<Rightarrow> bool" where
  "float64_less (Num a) (Num b) = (a < b)"
| "float64_less (Num a) PInf = True"
| "float64_less NInf (Num b) = True"
| "float64_less NInf PInf = True"
| "float64_less x y = False"

section \<open>Distribution summary (\<open>genstatdata\<close>)\<close>

text \<open>
  \<open>Mean\<close> is a quotient of finite numbers by the length of a non-empty slice, a finite
  number; \<open>Stddev\<close> is what \<open>math.Sqrt\<close> returns.
\<close>

record statresults =
  Min_v :: int
  LQ :: int
  Median :: int
  UQ :: int
  Max_v :: int
  Mean :: real
  Stddev :: float64

text \<open>The accumulation loop \<open>for _, item := range data { sum += item; squaresum += item * item }\<close>.\<close>

definition sum_squaresum :: "int list \<Rightarrow> int \<times> int" where
  "sum_squaresum data =
     foldl (\<lambda>(sum, squaresum) item. (sum + item, wrap64 (squaresum + item * item))) (0, 0) data"

text \<open>
  \<open>genstatdata\<close> sorts its argument (\<open>sort.IntSlice(data).Sort()\<close>; the ascending
  arrangement of integers is unique, so \<open>sort\<close> stands for it) and indexes the sorted
  slice. On an empty slice \<open>data[0]\<close> panics: the result is \<open>None\<close>.
\<close>

definition genstatdata :: "int list \<Rightarrow> statresults option" where
  "genstatdata data0 =
     (let data = sort data0; n = length data in
      if n = 0 then None
      else
        let (sum, squaresum) = sum_squaresum data;
            len = float64_of (int n);
            mean = rnd (float64_of sum / len)
        in Some \<lparr> Min_v = data ! 0,
                  LQ = data ! (n div 4),
                  Median = data ! (n div 2),
                  UQ = data ! (n div 4 * 3),
                  Max_v = data ! (n - 1),
                  Mean = mean,
                  Stddev = Sqrt (rnd (rnd (float64_of squaresum / len) - rnd (mean * mean))) \<rparr>)"

section \<open>Byte sources, the replay buffer and the tee\<close>

text \<open>
  \<open>Probe\<close> works through Go's standard library: \<open>io.TeeReader\<close>, \<open>bytes.Buffer\<close>,
  \<open>bufio.Reader\<close> (inside \<open>csv.NewReader\<close>), \<open>encoding/csv\<close>'s \<open>Reader\<close>, \<open>sort.Sort\<close>
  and \<open>math.Sqrt\<close>. These are not part of the repository; they are modelled here after
  the library of current Go releases, as far as \<open>Probe\<close> uses them. Bytes are \<open>char\<close>s
  (8 bits), runes are integers.
\<close>

type_synonym bytes = "char list"

text \<open>
  Error values. \<open>EOF\<close> is \<open>io.EOF\<close>; \<open>ParseError\<close> stands for any value of type
  \<open>*csv.ParseError\<close>; \<open>ErrInvalidDelim\<close>, \<open>ErrBufferFull\<close> and \<open>ErrNoProgress\<close> are the
  sentinel errors of \<open>encoding/csv\<close>, \<open>bufio\<close> and \<open>io\<close>; \<open>SourceError\<close> is an error
  of the caller's reader. \<open>IndexOutOfRange\<close> is the run-time panic of
  \<open>genstatdata\<close> on an empty slice.
\<close>

datatype error = EOF | ParseError | ErrInvalidDelim | ErrBufferFull | ErrNoProgress
  | SourceError string | IndexOutOfRange

text \<open>
  The caller's \<open>io.Reader\<close>: the blocks of bytes its successive \<open>Read\<close> calls deliver
  (an empty block is a read of no bytes and no error), and how it ends once they are
  used up: with \<open>io.EOF\<close> or with an error of its own, on every further call. A call
  with room for \<open>k\<close> bytes gets at most \<open>k\<close> bytes; the rest of the block waits for the
  next call.
\<close>

datatype ending = EndOfStream | Failure string

fun ending_error :: "ending \<Rightarrow> error" where
  "ending_error EndOfStream = EOF"
| "ending_error (Failure msg) = SourceError msg"

record source =
  blocks :: "bytes list"
  final :: ending

definition src_Read :: "nat \<Rightarrow> source \<Rightarrow> (bytes \<times> error option) \<times> source" where
  "src_Read k s =
     (case blocks s of
        [] \<Rightarrow> (([], Some (ending_error (final s))), s)
      | p # rest \<Rightarrow>
          if length p \<le> k then ((p, None), s\<lparr>blocks := rest\<rparr>)
          else ((take k p, None), s\<lparr>blocks := drop k p # rest\<rparr>))"

text \<open>
  \<open>bytes.Buffer\<close>, as its unread bytes: \<open>Read\<close> takes from the front (\<open>io.EOF\<close> when
  nothing is left and room for at least one byte was offered), \<open>Write\<close> appends at the
  back.
\<close>

definition Buffer_Read :: "nat \<Rightarrow> bytes \<Rightarrow> (bytes \<times> error option) \<times> bytes" where
  "Buffer_Read k b =
     (if b = [] then (if k = 0 then (([], None), b) else (([], Some EOF), b))
      else ((take k b, None), drop k b))"

definition Buffer_Write :: "bytes \<Rightarrow> bytes \<Rightarrow> bytes" where
  "Buffer_Write p b = b @ p"

text \<open>
  The variable \<open>r\<close> of \<open>Probe\<close> holds the caller's reader during the first trial and,
  after \<open>r = w\<close>, the buffer \<open>w\<close> itself.
\<close>

datatype reader = Orig | Buf

text \<open>
  The state one trial works on: the caller's reader, the buffer \<open>w\<close>, and the
  \<open>bufio.Reader\<close> inside the trial's \<open>csv.Reader\<close> (its unread bytes \<open>buf[r:w]\<close> and its
  pending error).
\<close>

record rstate =
  src :: source
  w :: bytes
  buf :: bytes
  err :: "error option"

definition reader_Read :: "reader \<Rightarrow> nat \<Rightarrow> rstate \<Rightarrow> (bytes \<times> error option) \<times> rstate" where
  "reader_Read r k s =
     (case r of
        Orig \<Rightarrow> (let (res, src') = src_Read k (src s) in (res, s\<lparr>src := src'\<rparr>))
      | Buf \<Rightarrow> (let (res, w') = Buffer_Read k (w s) in (res, s\<lparr>w := w'\<rparr>)))"

text \<open>\<open>io.TeeReader(r, w).Read\<close>: what is read from \<open>r\<close> is written to \<open>w\<close>.\<close>

definition TeeReader_Read :: "reader \<Rightarrow> nat \<Rightarrow> rstate \<Rightarrow> (bytes \<times> error option) \<times> rstate" where
  "TeeReader_Read r k s =
     (let ((p, e), s') = reader_Read r k s
      in ((p, e), if p \<noteq> [] then s'\<lparr>w := Buffer_Write p (w s')\<rparr> else s'))"

section \<open>The buffered reader (\<open>bufio.Reader\<close>)\<close>

definition defaultBufSize :: nat where
  "defaultBufSize = 4096"

text \<open>
  \<open>fill\<close> reads once into the free part of the buffer, and again (up to
  \<open>maxConsecutiveEmptyReads = 100\<close> times) while a read returns neither bytes nor an
  error.
\<close>

fun fill_loop :: "nat \<Rightarrow> reader \<Rightarrow> rstate \<Rightarrow> rstate" where
  "fill_loop 0 r s = s\<lparr>err := Some ErrNoProgress\<rparr>"
| "fill_loop (Suc i) r s =
     (let ((p, e), s') = TeeReader_Read r (defaultBufSize - length (buf s)) s;
          s'' = s'\<lparr>buf := buf s' @ p\<rparr>
      in if e \<noteq> None then s''\<lparr>err := e\<rparr>
         else if p \<noteq> [] then s''
         else fill_loop i r s'')"

definition fill :: "reader \<Rightarrow> rstate \<Rightarrow> rstate" where
  "fill r s = fill_loop 100 r s"

fun IndexByte :: "bytes \<Rightarrow> char \<Rightarrow> nat option" where
  "IndexByte [] c = None"
| "IndexByte (x # xs) c = (if x = c then Some 0 else map_option Suc (IndexByte xs c))"

definition nl :: char where "nl = CHR 0x0A"
definition cr :: char where "cr = CHR 0x0D"
definition quote :: char where "quote = CHR 0x22"

text \<open>
  \<open>ReadSlice('\n')\<close>: the buffered bytes up to and including the first newline; failing
  that the pending error with what is buffered; failing that \<open>ErrBufferFull\<close> with a full
  buffer; otherwise fill and look again.
\<close>

function ReadSlice :: "reader \<Rightarrow> rstate \<Rightarrow> (bytes \<times> error option) \<times> rstate" where
  "ReadSlice r s =
     (case IndexByte (buf s) nl of
        Some i \<Rightarrow> ((take (i + 1) (buf s), None), s\<lparr>buf := drop (i + 1) (buf s)\<rparr>)
      | None \<Rightarrow>
          if err s \<noteq> None then ((buf s, err s), s\<lparr>buf := [], err := None\<rparr>)
          else if defaultBufSize \<le> length (buf s) then ((buf s, Some ErrBufferFull), s\<lparr>buf := []\<rparr>)
          else ReadSlice r (fill r s))"
  by pat_completeness auto
termination
proof (relation "measure (\<lambda>(r, s). if err s \<noteq> None then 0 else Suc (defaultBufSize - length (buf s)))")
  show "wf (measure (\<lambda>(r, s). if err s \<noteq> None then 0 else Suc (defaultBufSize - length (buf s))))"
    by simp
next
  fix r and s :: rstate
  assume "IndexByte (buf s) nl = None" "\<not> err s \<noteq> None" "\<not> defaultBufSize \<le> length (buf s)"
  then have e: "err s = None" and l: "length (buf s) < defaultBufSize" by auto
  have tee: "buf t' = buf t \<and> err t' = err t"
    if "TeeReader_Read r k t = ((p, x), t')" for k p x and t t' :: rstate
    using that
    by (auto simp: TeeReader_Read_def reader_Read_def Let_def
        split: reader.splits prod.splits if_splits)
  have progress: "err t = None \<Longrightarrow>
      err (fill_loop n r t) \<noteq> None \<or> length (buf t) < length (buf (fill_loop n r t))"
    for n and t :: rstate
  proof (induction n arbitrary: t)
    case 0
    show ?case by simp
  next
    case (Suc n)
    obtain p x t' where rd: "TeeReader_Read r (defaultBufSize - length (buf t)) t = ((p, x), t')"
      by (metis prod.exhaust)
    note b = tee [OF rd]
    show ?case
    proof (cases "x \<noteq> None")
      case True
      with rd show ?thesis by auto
    next
      case False
      note ne = this
      show ?thesis
      proof (cases "p \<noteq> []")
        case True
        with rd ne b show ?thesis by auto
      next
        case False
        then have id: "t'\<lparr>buf := buf t' @ p\<rparr> = t'" by simp
        have "err t' = None" using b Suc.prems by simp
        from Suc.IH [OF this]
        have "err (fill_loop n r t') \<noteq> None \<or> length (buf t) < length (buf (fill_loop n r t'))"
          using b by simp
        moreover have "fill_loop (Suc n) r t = fill_loop n r t'"
          using rd ne False id by simp
        ultimately show ?thesis by simp
      qed
    qed
  qed
  from progress [OF e, of 100] l e
  show "((r, fill r s), (r, s)) \<in> measure (\<lambda>(r, s). if err s \<noteq> None then 0 else Suc (defaultBufSize - length (buf s)))"
    by (auto simp: fill_def)
qed

declare ReadSlice.simps [simp del]

section \<open>The CSV reader (\<open>encoding/csv\<close>) as \<open>Probe\<close> configures it\<close>

text \<open>
  \<open>Probe\<close> sets \<open>Comma = delim\<close>, \<open>FieldsPerRecord = -1\<close> and \<open>LazyQuotes = true\<close>; \<open>Comment\<close>
  is 0 and \<open>TrimLeadingSpace\<close> is false. The reader is followed on these settings.
  A function that may loop forever returns \<open>None\<close> when it does.
\<close>

text \<open>
  \<open>readLine\<close>: one \<open>ReadSlice\<close>, continued while the buffer was full; a last line without
  newline is returned with no error, less a trailing carriage return; a line ending
  \<open>\r\n\<close> ends in \<open>\n\<close>.
\<close>

partial_function (option) readLine_more :: "reader \<Rightarrow> bytes \<Rightarrow> rstate \<Rightarrow> ((bytes \<times> error option) \<times> rstate) option" where
  "readLine_more r rawBuffer s =
     (case ReadSlice r s of
        ((line, e), s') \<Rightarrow>
          if e = Some ErrBufferFull then readLine_more r (rawBuffer @ line) s'
          else Some ((rawBuffer @ line, e), s'))"

definition normalize_line :: "bytes \<times> error option \<Rightarrow> bytes \<times> error option" where
  "normalize_line le =
     (case le of (line0, e0) \<Rightarrow>
        let (line1, e1) =
              (if 0 < length line0 \<and> e0 = Some EOF
               then (if last line0 = cr then butlast line0 else line0, None)
               else (line0, e0));
            n = length line1
        in if 2 \<le> n \<and> line1 ! (n - 2) = cr \<and> line1 ! (n - 1) = nl
           then (take (n - 2) line1 @ [nl], e1)
           else (line1, e1))"

definition readLine :: "reader \<Rightarrow> rstate \<Rightarrow> ((bytes \<times> error option) \<times> rstate) option" where
  "readLine r s =
     (case ReadSlice r s of
        ((line, e), s') \<Rightarrow>
          (case (if e = Some ErrBufferFull then readLine_more r line s' else Some ((line, e), s')) of
             None \<Rightarrow> None
           | Some (le, s'') \<Rightarrow> Some (normalize_line le, s'')))"

definition lengthNL :: "bytes \<Rightarrow> nat" where
  "lengthNL b = (if 0 < length b \<and> last b = nl then 1 else 0)"

definition ValidRune :: "int \<Rightarrow> bool" where
  "ValidRune r \<longleftrightarrow> (0 \<le> r \<and> r < 0xD800) \<or> (0xDFFF < r \<and> r \<le> 0x10FFFF)"

definition validDelim :: "int \<Rightarrow> bool" where
  "validDelim r \<longleftrightarrow> r \<noteq> 0 \<and> r \<noteq> 0x22 \<and> r \<noteq> 0x0D \<and> r \<noteq> 0x0A \<and> ValidRune r \<and> r \<noteq> 0xFFFD"

text \<open>\<open>utf8.EncodeRune\<close> on a valid rune.\<close>

definition EncodeRune :: "int \<Rightarrow> bytes" where
  "EncodeRune r =
     (if r < 0x80 then [char_of r]
      else if r < 0x800 then [char_of (0xC0 + r div 64), char_of (0x80 + r mod 64)]
      else if r < 0x10000 then
        [char_of (0xE0 + r div 4096), char_of (0x80 + r div 64 mod 64), char_of (0x80 + r mod 64)]
      else
        [char_of (0xF0 + r div 262144), char_of (0x80 + r div 4096 mod 64),
         char_of (0x80 + r div 64 mod 64), char_of (0x80 + r mod 64)])"

definition HasPrefix :: "bytes \<Rightarrow> bytes \<Rightarrow> bool" where
  "HasPrefix b prefix \<longleftrightarrow> take (length prefix) b = prefix"

text \<open>
  \<open>bytes.IndexRune(line, r.Comma)\<close> on a valid delimiter is the first position at which
  the delimiter's encoding starts.
\<close>

fun Index :: "bytes \<Rightarrow> bytes \<Rightarrow> nat option" where
  "Index [] sep = (if sep = [] then Some 0 else None)"
| "Index (x # xs) sep = (if HasPrefix (x # xs) sep then Some 0 else map_option Suc (Index xs sep))"

text \<open>
  The first loop of \<open>readRecord\<close>: read lines, skipping empty ones, until a line with
  content or an error.
\<close>

partial_function (option) first_line :: "reader \<Rightarrow> rstate \<Rightarrow> ((bytes \<times> error option) \<times> rstate) option" where
  "first_line r s =
     (case readLine r s of
        None \<Rightarrow> None
      | Some ((line, errRead), s') \<Rightarrow>
          if errRead = None \<and> length line = lengthNL line then first_line r s'
          else Some ((line, errRead), s'))"

text \<open>
  The loop \<open>parseField\<close> with its inner loop over a quoted field. \<open>inquote\<close> tells
  whether control is inside the inner loop; \<open>nfields\<close> is \<open>len(r.fieldIndexes)\<close>, the
  number of fields of the record so far (\<open>Probe\<close> uses only the number of fields, so the
  fields' contents are not kept). The result is that number with the error
  \<open>readRecord\<close> returns.
\<close>

partial_function (option) parseField ::
  "bytes \<Rightarrow> reader \<Rightarrow> bool \<Rightarrow> bytes \<Rightarrow> error option \<Rightarrow> nat \<Rightarrow> rstate \<Rightarrow> ((nat \<times> error option) \<times> rstate) option" where
  "parseField comma r inquote line errRead nfields s =
     (if \<not> inquote then
        (if line = [] \<or> hd line \<noteq> quote then
           (case Index line comma of
              Some i \<Rightarrow> parseField comma r False (drop (i + length comma) line) errRead (nfields + 1) s
            | None \<Rightarrow> Some ((nfields + 1, errRead), s))
         else parseField comma r True (tl line) errRead nfields s)
      else
        (case IndexByte line quote of
           Some i \<Rightarrow>
             (let line' = drop (i + 1) line in
              if line' \<noteq> [] \<and> hd line' = quote then parseField comma r True (tl line') errRead nfields s
              else if HasPrefix line' comma then
                parseField comma r False (drop (length comma) line') errRead (nfields + 1) s
              else if lengthNL line' = length line' then Some ((nfields + 1, errRead), s)
              else parseField comma r True line' errRead nfields s)
         | None \<Rightarrow>
             if 0 < length line then
               (if errRead \<noteq> None then Some ((nfields, errRead), s)
                else
                  (case readLine r s of
                     None \<Rightarrow> None
                   | Some ((line', e), s') \<Rightarrow>
                       parseField comma r True line' (if e = Some EOF then None else e) nfields s'))
             else Some ((nfields + 1, errRead), s)))"

text \<open>
  \<open>Read\<close> (\<open>readRecord\<close>): the number of fields of the next record and the error. An
  invalid delimiter is refused before anything is read.
\<close>

definition Read :: "int \<Rightarrow> reader \<Rightarrow> rstate \<Rightarrow> ((nat \<times> error option) \<times> rstate) option" where
  "Read comma r s =
     (if \<not> validDelim comma then Some ((0, Some ErrInvalidDelim), s)
      else
        (case first_line r s of
           None \<Rightarrow> None
         | Some ((line, errRead), s') \<Rightarrow>
             if errRead = Some EOF then Some ((0, Some EOF), s')
             else parseField (EncodeRune comma) r False line errRead 0 s'))"

section \<open>The prober\<close>

record CSVprobability = statresults +
  Parsedrecords :: int
  Delimiter :: int

record CSVProbeResult =
  CSVprobability :: "CSVprobability list"
  ActualLines :: int

record CSVProber =
  RecordstoProbe :: int
  Delimiters :: "int list"

definition DefaultDelims :: "int list" where
  "DefaultDelims = [0x2C, 0x3B, 0x23, 0x7C]"

definition ProbeRecords :: int where
  "ProbeRecords = 200"

definition NewProber :: CSVProber where
  "NewProber = \<lparr> RecordstoProbe = ProbeRecords, Delimiters = DefaultDelims \<rparr>"

text \<open>\<open>csvprobabilityslice.Less\<close>: the coefficients of variation compared.\<close>

definition Less :: "CSVprobability \<Rightarrow> CSVprobability \<Rightarrow> bool" where
  "Less a b =
     (let cva = float64_div (Stddev a) (Mean a); cvb = float64_div (Stddev b) (Mean b)
      in float64_less cva cvb)"

text \<open>
  \<open>sort.Sort\<close>, as the insertion sort the library runs on short slices: each element in
  turn moves left past the neighbours it is \<open>Less\<close> than. \<open>insert_left\<close> works on the
  part already sorted, held in reverse.
\<close>

fun insert_left :: "('a \<Rightarrow> 'a \<Rightarrow> bool) \<Rightarrow> 'a \<Rightarrow> 'a list \<Rightarrow> 'a list" where
  "insert_left lt x [] = [x]"
| "insert_left lt x (y # ys) = (if lt x y then y # insert_left lt x ys else x # y # ys)"

definition insertionSort :: "('a \<Rightarrow> 'a \<Rightarrow> bool) \<Rightarrow> 'a list \<Rightarrow> 'a list" where
  "insertionSort lt xs = rev (foldl (\<lambda>acc x. insert_left lt x acc) [] xs)"

text \<open>
  The loop \<open>for i := 0; i < recordstoprobe; i++\<close> of one trial, over the \<open>Read\<close> method
  of the trial's \<open>csvreader\<close>. The result is the error \<open>Probe\<close> returns from inside the
  loop, or the value of \<open>recordstoprobe\<close> after the loop with the sample \<open>numrecords\<close>.
\<close>

partial_function (option) probe_loop ::
  "(rstate \<Rightarrow> ((nat \<times> error option) \<times> rstate) option) \<Rightarrow> int \<Rightarrow> int \<Rightarrow> int list \<Rightarrow> rstate \<Rightarrow>
     (error + (int \<times> int list \<times> rstate)) option" where
  "probe_loop csvreader_Read i recordstoprobe numrecords s =
     (if i < recordstoprobe then
        (case csvreader_Read s of
           None \<Rightarrow> None
         | Some ((len_data, e), s') \<Rightarrow>
             if e = None then
               probe_loop csvreader_Read (i + 1) recordstoprobe (numrecords @ [int len_data]) s'
             else if e = Some EOF then Some (Inr (i, numrecords, s'))
             else if e \<noteq> Some ParseError then Some (Inl (the e))
             else probe_loop csvreader_Read (i + 1) recordstoprobe numrecords s')
      else Some (Inr (recordstoprobe, numrecords, s)))"

text \<open>
  The loop over \<open>p.Delimiters\<close>. Each trial starts a new \<open>csv.Reader\<close> (an empty
  \<open>bufio.Reader\<close>) on \<open>io.TeeReader(r, w)\<close>; after it, \<open>r = w\<close>.
\<close>

fun probe_delims ::
  "int list \<Rightarrow> reader \<Rightarrow> int \<Rightarrow> CSVprobability list \<Rightarrow> source \<Rightarrow> bytes \<Rightarrow>
     (error + (CSVprobability list \<times> int \<times> source \<times> bytes)) option" where
  "probe_delims [] r recordstoprobe prob sr wr = Some (Inr (prob, recordstoprobe, sr, wr))"
| "probe_delims (delim # ds) r recordstoprobe prob sr wr =
     (case probe_loop (Read delim r) 0 recordstoprobe [] \<lparr> src = sr, w = wr, buf = [], err = None \<rparr> of
        None \<Rightarrow> None
      | Some (Inl e) \<Rightarrow> Some (Inl e)
      | Some (Inr (recordstoprobe', numrecords, s')) \<Rightarrow>
          if 0 < length numrecords then
            (case genstatdata numrecords of
               None \<Rightarrow> Some (Inl IndexOutOfRange)
             | Some st \<Rightarrow>
                 probe_delims ds Buf recordstoprobe'
                   (prob @ [\<lparr> Min_v = Min_v st, LQ = LQ st, Median = Median st, UQ = UQ st,
                              Max_v = Max_v st, Mean = Mean st, Stddev = Stddev st,
                              Parsedrecords = int (length numrecords), Delimiter = delim \<rparr>])
                   (src s') (w s'))
          else probe_delims ds Buf recordstoprobe' prob (src s') (w s'))"

text \<open>
  \<open>Probe\<close>, with the state it leaves behind (the caller's reader and the buffer \<open>w\<close>).
  \<open>None\<close>: the call does not return.
\<close>

definition Probe_run :: "CSVProber \<Rightarrow> source \<Rightarrow> (error + (CSVProbeResult \<times> source \<times> bytes)) option" where
  "Probe_run p sr =
     (case probe_delims (Delimiters p) Orig (RecordstoProbe p) [] sr [] of
        None \<Rightarrow> None
      | Some (Inl e) \<Rightarrow> Some (Inl e)
      | Some (Inr (prob, recordstoprobe, sr', wr')) \<Rightarrow>
          Some (Inr (\<lparr> CSVprobability = insertionSort Less prob, ActualLines = recordstoprobe \<rparr>, sr', wr')))"

definition Probe :: "CSVProber \<Rightarrow> source \<Rightarrow> (error + CSVProbeResult) option" where
  "Probe p sr = map_option (map_sum id fst) (Probe_run p sr)"

section \<open>Notions used in stating and proving the results\<close>

text \<open>
  \<open>io_step r s s'\<close>: how the caller's reader and the buffer \<open>w\<close> can change while a trial
  reads through \<open>io.TeeReader(r, w)\<close>. Reading the caller's reader appends to \<open>w\<close>
  exactly the bytes taken from it; reading \<open>w\<close> itself rotates \<open>w\<close> (what is read from
  the front is written to the back) and leaves the caller's reader alone.
\<close>

definition io_step :: "reader \<Rightarrow> rstate \<Rightarrow> rstate \<Rightarrow> bool" where
  "io_step r s s' \<longleftrightarrow>
     final (src s') = final (src s) \<and>
     (r = Orig \<longrightarrow> (\<exists>p. w s' = w s @ p \<and> p @ concat (blocks (src s')) = concat (blocks (src s))) \<and>
                (blocks (src s) = [] \<longrightarrow> blocks (src s') = [])) \<and>
     (r = Buf \<longrightarrow> src s' = src s \<and> (\<exists>k. w s' = rotate k (w s)))"

text \<open>
  \<open>okerr r s e\<close>: the errors the reader under the tee can have produced in state \<open>s\<close>.
  \<open>binv\<close>: buffered bytes have passed through the tee, and a pending error is such an
  error.
\<close>

definition okerr :: "reader \<Rightarrow> rstate \<Rightarrow> error \<Rightarrow> bool" where
  "okerr r s e \<longleftrightarrow>
     (r = Orig \<and> (e = ErrNoProgress \<or> (e = ending_error (final (src s)) \<and> blocks (src s) = []))) \<or>
     (r = Buf \<and> e = EOF \<and> w s = [])"

definition binv :: "reader \<Rightarrow> rstate \<Rightarrow> bool" where
  "binv r s \<longleftrightarrow> (buf s \<noteq> [] \<longrightarrow> w s \<noteq> []) \<and> (\<forall>e. err s = Some e \<longrightarrow> okerr r s e)"

definition lineprop :: "reader \<Rightarrow> rstate \<Rightarrow> bytes \<times> error option \<Rightarrow> bool" where
  "lineprop r s le \<longleftrightarrow> (fst le \<noteq> [] \<longrightarrow> w s \<noteq> []) \<and> (\<forall>x. snd le = Some x \<longrightarrow> okerr r s x)"

definition loop_post ::
  "reader \<Rightarrow> int \<Rightarrow> int \<Rightarrow> int list \<Rightarrow> rstate \<Rightarrow> error + (int \<times> int list \<times> rstate) \<Rightarrow> bool" where
  "loop_post r i n nums s res \<longleftrightarrow>
     (case res of
        Inl e \<Rightarrow> i < n \<and> e \<noteq> EOF \<and> e \<noteq> ParseError \<and>
                 (e = ErrInvalidDelim \<or> (\<exists>s'. io_step r s s' \<and> okerr r s' e))
      | Inr (n', nums', s') \<Rightarrow>
          binv r s' \<and> io_step r s s' \<and>
          (\<exists>new. nums' = nums @ new \<and> (\<forall>x\<in>set new. 1 \<le> x) \<and> (new \<noteq> [] \<longrightarrow> w s' \<noteq> []) \<and>
             (\<not> i < n \<longrightarrow> n' = n \<and> new = [] \<and> s' = s) \<and>
             (i < n \<longrightarrow> int (length new) = n' - i \<and> i \<le> n' \<and> n' \<le> n \<and> (n' < n \<longrightarrow> okerr r s' EOF))))"

definition cand_ok :: "int \<Rightarrow> CSVprobability \<Rightarrow> bool" where
  "cand_ok n c \<longleftrightarrow> 1 \<le> Parsedrecords c \<and> Parsedrecords c \<le> n \<and> 1 \<le> Mean c"


text \<open>
  The number of records a stream holds for a delimiter, in the spec's words ``the
  actual number of records the input stream contained'' and ``what a single direct
  parse of the original input would have produced'': the records a \<open>csv.Reader\<close> with
  \<open>Probe\<close>'s settings reads from the caller's reader, counted from \<open>i\<close>, until \<open>io.EOF\<close>;
  a parse that stops on another error has that error.
\<close>

partial_function (option) stream_records :: "int \<Rightarrow> int \<Rightarrow> rstate \<Rightarrow> (error + int) option" where
  "stream_records comma i s =
     (case Read comma Orig s of
        None \<Rightarrow> None
      | Some ((len_data, e), s') \<Rightarrow>
          if e = None then stream_records comma (i + 1) s'
          else if e = Some EOF then Some (Inr i)
          else Some (Inl (the e)))"

definition fresh :: "source \<Rightarrow> rstate" where
  "fresh sr = \<lparr> src = sr, w = [], buf = [], err = None \<rparr>"

definition one_record :: source where
  "one_record = \<lparr> blocks = [''a,b'' @ [nl]], final = EndOfStream \<rparr>"

definition skipping_reader :: "rstate \<Rightarrow> ((nat \<times> error option) \<times> rstate) option" where
  "skipping_reader s = Some ((0, Some ParseError), s)"

definition ending_reader :: "rstate \<Rightarrow> ((nat \<times> error option) \<times> rstate) option" where
  "ending_reader s = Some ((0, Some EOF), s)"

definition failing_reader :: "rstate \<Rightarrow> ((nat \<times> error option) \<times> rstate) option" where
  "failing_reader s = Some ((1, Some (SourceError ''disk'')), s)"

definition failing_source :: source where
  "failing_source = \<lparr> blocks = [], final = Failure ''disk'' \<rparr>"

text \<open>
  The trials of a probe, in the spec's words ``for each candidate delimiter \<dots> the
  Field-Count Sample'': each configured delimiter, in order, with the sample its trial
  collects. The trials run as in \<open>Probe\<close>: the first on the caller's reader, the others
  on the buffer, each with the budget the one before left.
\<close>

fun trials ::
  "int list \<Rightarrow> reader \<Rightarrow> int \<Rightarrow> source \<Rightarrow> bytes \<Rightarrow> (error + (int \<times> int list) list) option" where
  "trials [] r recordstoprobe sr wr = Some (Inr [])"
| "trials (delim # ds) r recordstoprobe sr wr =
     (case probe_loop (Read delim r) 0 recordstoprobe [] \<lparr> src = sr, w = wr, buf = [], err = None \<rparr> of
        None \<Rightarrow> None
      | Some (Inl e) \<Rightarrow> Some (Inl e)
      | Some (Inr (recordstoprobe', numrecords, s')) \<Rightarrow>
          (case trials ds Buf recordstoprobe' (src s') (w s') of
             None \<Rightarrow> None
           | Some (Inl e) \<Rightarrow> Some (Inl e)
           | Some (Inr ts) \<Rightarrow> Some (Inr ((delim, numrecords) # ts))))"

text \<open>
  The candidates of a list of trials, in the order of the trials: a trial with an empty
  sample has none, any other has its delimiter, the length of its sample and the
  summary of its sample.
\<close>

fun candidates :: "(int \<times> int list) list \<Rightarrow> CSVprobability list" where
  "candidates [] = []"
| "candidates ((delim, numrecords) # ts) =
     (case genstatdata numrecords of
        None \<Rightarrow> candidates ts
      | Some st \<Rightarrow>
          \<lparr> Min_v = Min_v st, LQ = LQ st, Median = Median st, UQ = UQ st,
            Max_v = Max_v st, Mean = Mean st, Stddev = Stddev st,
            Parsedrecords = int (length numrecords), Delimiter = delim \<rparr> # candidates ts)"

text \<open>The coefficient of variation of a candidate, as \<open>Less\<close> computes it.\<close>

definition cv :: "CSVprobability \<Rightarrow> float64" where
  "cv c = float64_div (Stddev c) (Mean c)"

text \<open>The population variance \<open>E[x\<^sup>2] - E[x]\<^sup>2\<close> of a sample, in exact arithmetic.\<close>

definition variance :: "int list \<Rightarrow> real" where
  "variance xs =
     real_of_int (sum_list (map (\<lambda>x. x * x) xs)) / real (length xs)
       - (real_of_int (sum_list xs) / real (length xs)) * (real_of_int (sum_list xs) / real (length xs))"

definition long_line :: bytes where
  "long_line = replicate 5000 (CHR ''x'') @ [nl]"

definition long_line_rotated :: bytes where
  "long_line_rotated = replicate 1809 (CHR ''x'') @ [nl] @ replicate 3191 (CHR ''x'')"

text \<open>
  \<open>endless s\<close>: a replay trial in a state from which no line ever ends: the buffer \<open>w\<close>
  is not empty and holds no newline, and neither does the buffered reader.
\<close>

definition endless :: "rstate \<Rightarrow> bool" where
  "endless s \<longleftrightarrow> w s \<noteq> [] \<and> nl \<notin> set (w s) \<and> nl \<notin> set (buf s) \<and> err s = None"

definition no_newline :: source where
  "no_newline = \<lparr> blocks = [''abc''], final = EndOfStream \<rparr>"

text \<open>
  Streams of \<open>n\<close> records of four comma-separated fields each, the first field in
  double quotes. \<open>replaying n s\<close>: a replay trial on the buffer such a stream leaves,
  between two lines.
\<close>

definition quoted_row :: bytes where
  "quoted_row = [quote] @ ''a'' @ [quote] @ '',b,c,d'' @ [nl]"

definition quoted_rows :: "nat \<Rightarrow> bytes" where
  "quoted_rows n = concat (replicate n quoted_row)"

definition quoted_csv :: "nat \<Rightarrow> source" where
  "quoted_csv n = \<lparr> blocks = [quoted_rows n], final = EndOfStream \<rparr>"

definition replaying :: "nat \<Rightarrow> rstate \<Rightarrow> bool" where
  "replaying n s \<longleftrightarrow> w s = quoted_rows n \<and> (\<exists>k\<le>n. buf s = quoted_rows k) \<and> err s = None"

section \<open>Facts about rounding\<close>

lemma round_even_bounds: "\<lfloor>y\<rfloor> \<le> round_even y" "round_even y \<le> \<lfloor>y\<rfloor> + 1"
  by (simp_all add: round_even_def Let_def)

lemma round_even_mono: "y \<le> z \<Longrightarrow> round_even y \<le> round_even z"
proof -
  assume yz: "y \<le> z"
  have fl: "\<lfloor>y\<rfloor> \<le> \<lfloor>z\<rfloor>" using yz by (rule floor_mono)
  show ?thesis
  proof (cases "\<lfloor>y\<rfloor> = \<lfloor>z\<rfloor>")
    case True
    then show ?thesis using yz by (auto simp add: round_even_def Let_def)
  next
    case False
    then have "\<lfloor>y\<rfloor> + 1 \<le> \<lfloor>z\<rfloor>" using fl by simp
    then show ?thesis using round_even_bounds(2) [of y] round_even_bounds(1) [of z] by linarith
  qed
qed

lemma round_even_of_int [simp]: "round_even (of_int k) = k"
  by (simp add: round_even_def)

lemma rnd_0 [simp]: "rnd 0 = 0"
  by (simp add: rnd_def)

text \<open>The value of \<open>rnd\<close> on a number of known binary order of magnitude.\<close>

lemma rnd_binade:
  assumes "x \<noteq> 0" "2 powr of_int e \<le> \<bar>x\<bar>" "\<bar>x\<bar> < 2 powr of_int (e + 1)"
  shows "rnd x = 2 powr (of_int e - 52) * of_int (round_even (x / 2 powr (of_int e - 52)))"
proof -
  have "\<lfloor>log 2 \<bar>x\<bar>\<rfloor> = e"
    using assms by (subst floor_log_eq_powr_iff) auto
  then show ?thesis using assms(1) by (simp add: rnd_def Let_def)
qed

lemma binade_ex:
  assumes "x \<noteq> 0"
  shows "2 powr of_int \<lfloor>log 2 \<bar>x\<bar>\<rfloor> \<le> \<bar>x\<bar> \<and> \<bar>x\<bar> < 2 powr of_int (\<lfloor>log 2 \<bar>x\<bar>\<rfloor> + 1)"
  using assms floor_log_eq_powr_iff [of "\<bar>x\<bar>" 2 "\<lfloor>log 2 \<bar>x\<bar>\<rfloor>"] by auto

lemma rnd_range:
  assumes "x \<noteq> 0" "2 powr of_int e \<le> \<bar>x\<bar>" "\<bar>x\<bar> < 2 powr of_int (e + 1)" "0 < x"
  shows "2 powr of_int e \<le> rnd x" "rnd x \<le> 2 powr of_int (e + 1)"
proof -
  define q :: real where "q = 2 powr (of_int e - 52)"
  have q: "0 < q" by (simp add: q_def)
  have qe: "q * 2 ^ 52 = 2 powr of_int e"
    by (simp add: q_def powr_diff)
  have qe1: "q * 2 ^ 53 = 2 powr of_int (e + 1)"
    by (simp add: q_def powr_diff powr_add)
  have r: "rnd x = q * of_int (round_even (x / q))"
    unfolding q_def using assms(1-3) by (rule rnd_binade)
  have lo: "2 ^ 52 \<le> x / q"
    using assms(2,4) q qe by (simp add: pos_le_divide_eq mult.commute)
  have hi: "x / q < 2 ^ 53"
    using assms(3,4) q qe1 by (simp add: pos_divide_less_eq mult.commute)
  have "(2 ^ 52 :: int) \<le> \<lfloor>x / q\<rfloor>"
    using lo by (simp add: le_floor_iff)
  then have a: "(2 ^ 52 :: int) \<le> round_even (x / q)"
    using round_even_bounds(1) [of "x / q"] by linarith
  have "\<lfloor>x / q\<rfloor> < (2 ^ 53 :: int)"
    using hi by (simp add: floor_less_iff)
  then have b: "round_even (x / q) \<le> (2 ^ 53 :: int)"
    using round_even_bounds(2) [of "x / q"] by linarith
  have "real_of_int (2 ^ 52) \<le> of_int (round_even (x / q))"
    using a by (simp only: of_int_le_iff)
  then have "q * 2 ^ 52 \<le> q * of_int (round_even (x / q))"
    using q by simp
  then show "2 powr of_int e \<le> rnd x" using r qe by simp
  have "real_of_int (round_even (x / q)) \<le> of_int (2 ^ 53)"
    using b by (simp only: of_int_le_iff)
  then have "q * of_int (round_even (x / q)) \<le> q * 2 ^ 53"
    using q by simp
  then show "rnd x \<le> 2 powr of_int (e + 1)" using r qe1 by simp
qed

lemma rnd_pos: "0 < x \<Longrightarrow> 0 < rnd x"
proof -
  assume x: "0 < x"
  then have "x \<noteq> 0" by simp
  from binade_ex [OF this] rnd_range(1) [of x "\<lfloor>log 2 \<bar>x\<bar>\<rfloor>"] x
  have "2 powr of_int \<lfloor>log 2 \<bar>x\<bar>\<rfloor> \<le> rnd x" by simp
  moreover have "(0::real) < 2 powr of_int \<lfloor>log 2 \<bar>x\<bar>\<rfloor>" by simp
  ultimately show ?thesis by linarith
qed

lemma round_even_minus: "round_even (- y) = - round_even y"
proof (cases "y = of_int \<lfloor>y\<rfloor>")
  case True
  then obtain k where "y = of_int k" ..
  then show ?thesis by (simp flip: of_int_minus)
next
  case False
  then have fl: "\<lfloor>- y\<rfloor> = - \<lfloor>y\<rfloor> - 1"
    by (metis ceiling_altdef ceiling_def minus_diff_eq minus_minus uminus_add_conv_diff)
  show ?thesis
    unfolding round_even_def Let_def fl by (auto simp: algebra_simps)
qed

lemma rnd_minus: "rnd (- x) = - rnd x"
  by (simp add: rnd_def Let_def round_even_minus)

lemma rnd_neg: "x < 0 \<Longrightarrow> rnd x < 0"
  using rnd_pos [of "- x"] by (simp add: rnd_minus)

text \<open>Rounding is monotone on the positive numbers.\<close>

lemma rnd_mono_pos:
  assumes "0 < x" "x \<le> y"
  shows "rnd x \<le> rnd y"
proof -
  define ex where "ex = \<lfloor>log 2 \<bar>x\<bar>\<rfloor>"
  define ey where "ey = \<lfloor>log 2 \<bar>y\<bar>\<rfloor>"
  have x0: "x \<noteq> 0" and y0: "y \<noteq> 0" and ypos: "0 < y" using assms by auto
  have bx: "2 powr of_int ex \<le> \<bar>x\<bar>" "\<bar>x\<bar> < 2 powr of_int (ex + 1)"
    using binade_ex [OF x0] by (simp_all add: ex_def)
  have by': "2 powr of_int ey \<le> \<bar>y\<bar>" "\<bar>y\<bar> < 2 powr of_int (ey + 1)"
    using binade_ex [OF y0] by (simp_all add: ey_def)
  have le: "ex \<le> ey"
    unfolding ex_def ey_def using assms by (intro floor_mono) simp
  show ?thesis
  proof (cases "ex = ey")
    case True
    define q :: real where "q = 2 powr (of_int ex - 52)"
    have q: "0 < q" by (simp add: q_def)
    have rx: "rnd x = q * of_int (round_even (x / q))"
      unfolding q_def using x0 bx by (rule rnd_binade)
    have ry: "rnd y = q * of_int (round_even (y / q))"
      unfolding q_def True using y0 by' by (rule rnd_binade)
    have "x / q \<le> y / q" using assms(2) q by (simp add: divide_right_mono)
    then have "round_even (x / q) \<le> round_even (y / q)" by (rule round_even_mono)
    then show ?thesis using rx ry q by simp
  next
    case False
    then have "ex + 1 \<le> ey" using le by simp
    then have "(2::real) powr of_int (ex + 1) \<le> 2 powr of_int ey"
      by (simp del: of_int_add)
    moreover have "rnd x \<le> 2 powr of_int (ex + 1)"
      using rnd_range(2) [OF x0 bx assms(1)] .
    moreover have "2 powr of_int ey \<le> rnd y"
      using rnd_range(1) [OF y0 by' ypos] .
    ultimately show ?thesis by linarith
  qed
qed

text \<open>The values \<open>k * 2\<^sup>j\<close> with \<open>|k| < 2\<^sup>5\<^sup>3\<close> are not changed by rounding.\<close>

lemma rnd_exact:
  assumes "\<bar>k\<bar> < 2 ^ 53"
  shows "rnd (of_int k * 2 powr of_int j) = of_int k * 2 powr of_int j"
proof (cases "k = 0")
  case True
  then show ?thesis by simp
next
  case False
  define x :: real where "x = of_int k * 2 powr of_int j"
  define e where "e = \<lfloor>log 2 \<bar>x\<bar>\<rfloor>"
  have x0: "x \<noteq> 0" using False by (simp add: x_def)
  have bx: "2 powr of_int e \<le> \<bar>x\<bar>" "\<bar>x\<bar> < 2 powr of_int (e + 1)"
    using binade_ex [OF x0] by (simp_all add: e_def)
  have "\<bar>x\<bar> = of_int \<bar>k\<bar> * 2 powr of_int j" by (simp add: x_def abs_mult)
  also have "\<dots> < 2 ^ 53 * 2 powr of_int j"
  proof -
    have "real_of_int \<bar>k\<bar> < real_of_int (2 ^ 53)" using assms by (simp only: of_int_less_iff)
    then show ?thesis by simp
  qed
  also have "\<dots> = 2 powr of_int (53 + j)" by (simp add: powr_add)
  finally have "2 powr of_int e < (2::real) powr of_int (53 + j)" using bx(1) by linarith
  then have ej: "e \<le> 52 + j" by simp
  define d where "d = nat (52 + j - e)"
  have d: "int d = 52 + j - e" using ej by (simp add: d_def)
  have "x / 2 powr (of_int e - 52) = of_int k * 2 powr (of_int j - (of_int e - 52))"
    by (simp add: x_def powr_diff)
  also have "of_int j - (of_int e - 52) = real d"
    using d by linarith
  also have "of_int k * 2 powr real d = of_int (k * 2 ^ d)"
    by (simp add: powr_realpow)
  finally have int: "x / 2 powr (of_int e - 52) = of_int (k * 2 ^ d)" .
  have "rnd x = 2 powr (of_int e - 52) * of_int (round_even (x / 2 powr (of_int e - 52)))"
    using x0 bx by (rule rnd_binade)
  also have "\<dots> = 2 powr (of_int e - 52) * (x / 2 powr (of_int e - 52))"
    unfolding int round_even_of_int ..
  also have "\<dots> = x" by simp
  finally show ?thesis by (simp add: x_def)
qed

lemma rnd_of_int: "\<bar>k\<bar> < 2 ^ 53 \<Longrightarrow> rnd (of_int k) = of_int k"
  using rnd_exact [of k 0] by simp

lemma rnd_1 [simp]: "rnd 1 = 1"
  using rnd_of_int [of 1] by simp

lemma rnd_numeral [simp]: "numeral n < (9007199254740992 :: int) \<Longrightarrow> rnd (numeral n) = numeral n"
  using rnd_of_int [of "numeral n"] by simp

lemma rnd_ge_1: "1 \<le> x \<Longrightarrow> 1 \<le> rnd x"
  using rnd_mono_pos [of 1 x] by simp

text \<open>Rounding a positive number below \<open>2\<^sup>5\<^sup>3\<close>, given its binary order of magnitude \<open>e\<close>.\<close>

lemma rnd_eval:
  fixes e :: nat
  assumes "0 < x" "2 ^ e \<le> x" "x < 2 ^ (e + 1)" "e \<le> 52"
  shows "rnd x = of_int (round_even (x * 2 ^ (52 - e))) / 2 ^ (52 - e)"
proof -
  have x0: "x \<noteq> 0" using assms(1) by simp
  have a: "2 powr of_int (int e) \<le> \<bar>x\<bar>" using assms(1,2) by (simp add: powr_realpow)
  have "(2::real) powr of_int (int e + 1) = 2 ^ (e + 1)"
    using powr_realpow [of 2 "e + 1"] by (simp add: add.commute)
  then have b: "\<bar>x\<bar> < 2 powr of_int (int e + 1)" using assms(1,3) by simp
  have q: "(2::real) powr (of_int (int e) - 52) = 1 / 2 ^ (52 - e)"
  proof -
    have "(2::real) powr (of_int (int e) - 52) = 2 powr (- real (52 - e))"
      using assms(4) by (simp add: of_nat_diff)
    also have "\<dots> = 1 / 2 powr real (52 - e)" by (simp add: powr_minus_divide)
    also have "\<dots> = 1 / 2 ^ (52 - e)" by (simp add: powr_realpow)
    finally show ?thesis .
  qed
  show ?thesis
    unfolding rnd_binade [OF x0 a b] q by simp
qed

lemma rnd_neg_quarter: "rnd (- (1 / 4)) = - (1 / 4)"
  using rnd_exact [of "-1" "-2"] by (simp add: powr_minus_divide)

section \<open>Facts about the summary\<close>

lemma foldl_sum_squaresum_fst:
  "fst (foldl (\<lambda>(sum, squaresum) item. (sum + item, wrap64 (squaresum + item * item))) (a, b) xs)
     = a + sum_list xs"
  by (induction xs arbitrary: a b) (simp_all add: algebra_simps)

lemma sum_squaresum_fst:
  "fst (sum_squaresum xs) = sum_list xs"
  by (simp add: sum_squaresum_def foldl_sum_squaresum_fst)

lemma sort_eq_Nil_iff:
  "sort xs = [] \<longleftrightarrow> xs = []"
  by (metis length_sort length_0_conv)

lemma genstatdata_Some:
  "xs \<noteq> [] \<Longrightarrow> \<exists>r. genstatdata xs = Some r"
  by (simp add: genstatdata_def Let_def sort_eq_Nil_iff split: prod.splits)

lemma genstatdata_None:
  "genstatdata xs = None \<longleftrightarrow> xs = []"
  by (simp add: genstatdata_def Let_def sort_eq_Nil_iff split: prod.splits)

lemma genstatdata_Mean:
  assumes "genstatdata xs = Some r"
  shows "Mean r = rnd (float64_of (sum_list xs) / float64_of (int (length xs)))"
proof -
  have s: "sum_list (sort xs) = sum_list xs"
    by (metis mset_sort sum_mset_sum_list)
  have "fst (sum_squaresum (sort xs)) = sum_list xs"
    by (simp add: sum_squaresum_fst s)
  with assms show ?thesis
    by (auto simp: genstatdata_def Let_def split: if_splits prod.splits)
qed

text \<open>
  Where the summary reads the sorted sample, and what follows from the sorting: the
  extrema are the true ones, and the chain of order statistics holds up to the median;
  the upper quartile is above the median for samples of four or more.
\<close>

lemma genstatdata_fields:
  assumes "genstatdata xs = Some r"
  shows "Min_v r = sort xs ! 0" "LQ r = sort xs ! (length xs div 4)"
    "Median r = sort xs ! (length xs div 2)" "UQ r = sort xs ! (length xs div 4 * 3)"
    "Max_v r = sort xs ! (length xs - 1)"
  using assms
  by (auto simp: genstatdata_def Let_def split: if_splits prod.splits)

lemma genstatdata_extrema:
  assumes "genstatdata xs = Some r"
  shows "Min_v r = Min (set xs)" "Max_v r = Max (set xs)"
proof -
  from assms have ne: "xs \<noteq> []"
    by (auto simp: genstatdata_def Let_def sort_eq_Nil_iff split: if_splits)
  let ?ys = "sort xs"
  have len: "length ?ys = length xs" and set: "set ?ys = set xs" and srt: "sorted ?ys" by simp_all
  from ne len have pos: "0 < length ?ys" by simp
  have "?ys ! 0 = Min (set ?ys)"
  proof (rule Min_eqI [symmetric])
    show "finite (set ?ys)" by simp
    show "?ys ! 0 \<in> set ?ys" using pos by (simp del: set_sort)
    fix y assume "y \<in> set ?ys"
    then obtain i where "i < length ?ys" "?ys ! i = y" by (auto simp: in_set_conv_nth simp del: set_sort)
    with sorted_nth_mono [OF srt, of 0 i] show "?ys ! 0 \<le> y" by simp
  qed
  moreover have "?ys ! (length xs - 1) = Max (set ?ys)"
  proof (rule Max_eqI [symmetric])
    show "finite (set ?ys)" by simp
    show "?ys ! (length xs - 1) \<in> set ?ys" using pos len by (simp del: set_sort length_sort)
    fix y assume "y \<in> set ?ys"
    then obtain i where i: "i < length ?ys" "?ys ! i = y" by (auto simp: in_set_conv_nth simp del: set_sort)
    with sorted_nth_mono [OF srt, of i "length xs - 1"] len show "y \<le> ?ys ! (length xs - 1)" by simp
  qed
  ultimately show "Min_v r = Min (set xs)" "Max_v r = Max (set xs)"
    using genstatdata_fields [OF assms] set by simp_all
qed

lemma genstatdata_chain:
  assumes "genstatdata xs = Some r"
  shows "Min_v r \<le> LQ r" "LQ r \<le> Median r" "UQ r \<le> Max_v r" "Min_v r \<le> UQ r"
    "Median r \<le> Max_v r" "4 \<le> length xs \<Longrightarrow> Median r \<le> UQ r"
proof -
  from assms have ne: "xs \<noteq> []"
    by (auto simp: genstatdata_def Let_def sort_eq_Nil_iff split: if_splits)
  then have pos: "0 < length xs" by simp
  have srt: "sorted (sort xs)" by simp
  have m: "i \<le> j \<Longrightarrow> j < length xs \<Longrightarrow> sort xs ! i \<le> sort xs ! j" for i j
    using sorted_nth_mono [OF srt, of i j] by simp
  note f = genstatdata_fields [OF assms]
  have a: "length xs div 4 * 3 < length xs" "length xs div 4 * 3 \<le> length xs - 1"
    "length xs div 4 \<le> length xs div 2" "length xs div 2 < length xs"
    using pos by presburger+
  have b: "length xs div 2 \<le> length xs div 4 * 3" if "4 \<le> length xs"
    using that by presburger
  show "Min_v r \<le> LQ r" unfolding f using pos a by (intro m) auto
  show "LQ r \<le> Median r" unfolding f using pos a by (intro m) auto
  show "UQ r \<le> Max_v r" unfolding f using pos a by (intro m) auto
  show "Min_v r \<le> UQ r" unfolding f using pos a by (intro m) auto
  show "Median r \<le> Max_v r" unfolding f using pos a by (intro m) auto
  show "Median r \<le> UQ r" if "4 \<le> length xs" unfolding f using that a b by (intro m) auto
qed

text \<open>
  The summary of the five-element sample \<open>33554456\<close> (four times), \<open>33554457\<close>:
  \<open>sum = 167772281\<close> and \<open>squaresum = 5629507654388593\<close> are converted exactly; the
  quotients and the product \<open>Mean*Mean\<close> (the square of \<open>2251801437719757 / 2\<^sup>2\<^sup>6\<close>) are
  rounded to 53 bits.
\<close>

lemma rnd_mean_sample: "rnd (167772281 / 5) = 2251801437719757 / 67108864"
  using rnd_eval [of "167772281 / 5" 25] by (simp add: round_even_def)

lemma rnd_squaresum_sample: "rnd (5629507654388593 / 5) = 2251803061755437 / 2"
  using rnd_eval [of "5629507654388593 / 5" 50] by (simp add: round_even_def)

lemma rnd_mean_squared_sample:
  "rnd (5070609714916764663299668139049 / 4503599627370496) = 4503606123510875 / 4"
  using rnd_eval [of "5070609714916764663299668139049 / 4503599627370496" 50]
  by (simp add: round_even_def)

lemma genstatdata_sample:
  "genstatdata [33554456, 33554456, 33554456, 33554456, 33554457] =
     Some \<lparr> Min_v = 33554456, LQ = 33554456, Median = 33554456, UQ = 33554456, Max_v = 33554457,
            Mean = 2251801437719757 / 67108864, Stddev = NaN \<rparr>"
  by (simp add: genstatdata_def sum_squaresum_def wrap64_def float64_of_def Sqrt_def Let_def
      rnd_mean_sample rnd_squaresum_sample rnd_mean_squared_sample rnd_neg_quarter)

text \<open>
  A sample of one record of \<open>3037000500\<close> fields: the square is above \<open>2\<^sup>6\<^sup>3\<close>, \<open>squaresum\<close>
  wraps round to a negative number, and \<open>Stddev\<close> is \<open>NaN\<close>.
\<close>

lemma genstatdata_wrapped:
  "map_option Stddev (genstatdata [3037000500]) = Some NaN"
proof -
  have "rnd (rnd (- 9223372036709301616)) < 0" by (intro rnd_neg) simp
  moreover have "0 < rnd (9223372037000250000)" by (rule rnd_pos) simp
  ultimately have "rnd (rnd (rnd (- 9223372036709301616)) - rnd (9223372037000250000)) < 0"
    by (intro rnd_neg) linarith
  then show ?thesis
    by (simp add: genstatdata_def sum_squaresum_def wrap64_def float64_of_def Sqrt_def Let_def)
qed

text \<open>
  C8. The claim says that the standard deviation of every non-empty sample is at least
  0. On the sample of five records with \<open>33554456\<close> fields (four of them) and \<open>33554457\<close>
  fields, \<open>float64(squaresum)/float64(len(data))\<close> is rounded to \<open>1125901530877718.5\<close>
  and \<open>Mean*Mean\<close> to \<open>1125901530877718.75\<close>: \<open>math.Sqrt\<close> is called on \<open>-0.25\<close> and
  \<open>Stddev\<close> is \<open>NaN\<close>. The variance of the sample is \<open>0.16\<close>.
\<close>

theorem C8_stddev_not_a_number:
  "map_option Stddev (genstatdata [33554456, 33554456, 33554456, 33554456, 33554457]) = Some NaN \<and>
   variance [33554456, 33554456, 33554456, 33554456, 33554457] = 4 / 25"
  by (simp add: genstatdata_sample variance_def)

text \<open>
  C3. The claim puts the upper quartile at index \<open>length * 3 / 4\<close>; the code indexes at
  \<open>len(data)/4*3\<close>, that is \<open>(length / 4) * 3\<close>. On the six-element sample \<open>1..6\<close> the
  claimed position holds 5 and the code returns 4 (lower quartile and median are where
  the claim puts them).
\<close>

theorem C3_upper_quartile_index:
  "map_option (\<lambda>r. (LQ r, Median r, UQ r)) (genstatdata [1, 2, 3, 4, 5, 6]) = Some (2, 4, 4) \<and>
   sort [1, 2, 3, 4, 5, 6 :: int] ! (length [1, 2, 3, 4, 5, 6 :: int] * 3 div 4) = 5"
  by (simp add: genstatdata_def sum_squaresum_def Let_def)

text \<open>
  C4. On the two-element sample \<open>[1, 2]\<close> the code returns median 2 and upper quartile 1
  (index \<open>2/4*3 = 0\<close>): the chain \<open>Median \<le> UQ\<close> is broken, while minimum and maximum are
  the true ones.
\<close>

theorem C4_quartile_chain_broken:
  "map_option (\<lambda>r. (Min_v r, LQ r, Median r, UQ r, Max_v r)) (genstatdata [1, 2]) = Some (1, 1, 2, 1, 2)"
  by (simp add: genstatdata_def sum_squaresum_def Let_def)

lemma sum_list_ge_length:
  fixes xs :: "int list"
  shows "\<forall>x\<in>set xs. 1 \<le> x \<Longrightarrow> int (length xs) \<le> sum_list xs"
  by (induction xs) auto

lemma genstatdata_Mean_ge_1:
  assumes "genstatdata nums = Some st" "\<forall>x\<in>set nums. 1 \<le> x"
  shows "1 \<le> Mean st"
proof -
  from assms(1) have ne: "nums \<noteq> []" by (auto simp: genstatdata_def Let_def sort_eq_Nil_iff split: if_splits)
  then have n1: "1 \<le> real_of_int (int (length nums))" by (cases nums) simp_all
  have le: "real_of_int (int (length nums)) \<le> real_of_int (sum_list nums)"
    using sum_list_ge_length [OF assms(2)] by (simp only: of_int_le_iff)
  have a: "1 \<le> float64_of (int (length nums))"
    unfolding float64_of_def using n1 by (rule rnd_ge_1)
  have b: "float64_of (int (length nums)) \<le> float64_of (sum_list nums)"
    unfolding float64_of_def using n1 le by (intro rnd_mono_pos) linarith+
  from a b have "1 \<le> float64_of (sum_list nums) / float64_of (int (length nums))"
    by (simp add: le_divide_eq)
  then show ?thesis
    unfolding genstatdata_Mean [OF assms(1)] by (rule rnd_ge_1)
qed


section \<open>What a trial does to the reader and the buffer\<close>

lemma TeeReader_Read_buf_err:
  fixes s :: rstate
  assumes "TeeReader_Read r k s = ((p, e), s')"
  shows "buf s' = buf s" and "err s' = err s"
  using assms
  by (auto simp: TeeReader_Read_def reader_Read_def Let_def
      split: reader.splits prod.splits if_splits)

lemma io_step_refl [simp]: "io_step r s s"
  unfolding io_step_def
  by (auto intro: exI [of _ 0])

lemma io_step_trans: "io_step r s t \<Longrightarrow> io_step r t u \<Longrightarrow> io_step r s u"
  unfolding io_step_def
  by (cases r) (auto simp: rotate_rotate)

lemma io_step_upd [simp]:
  "io_step r s (t\<lparr>buf := b\<rparr>) = io_step r s t"
  "io_step r s (t\<lparr>err := e\<rparr>) = io_step r s t"
  "io_step r (s\<lparr>buf := b\<rparr>) t = io_step r s t"
  "io_step r (s\<lparr>err := e\<rparr>) t = io_step r s t"
  by (simp_all add: io_step_def)

lemma Buffer_rotate:
  "\<exists>j. drop k b @ take k b = rotate j b"
proof (cases "k < length b")
  case True
  then have "rotate k b = drop k b @ take k b" by (simp add: rotate_drop_take)
  then show ?thesis by metis
next
  case False
  then have "drop k b @ take k b = rotate 0 b" by simp
  then show ?thesis by metis
qed

lemma TeeReader_Read_io:
  "TeeReader_Read r k s = ((p, e), s') \<Longrightarrow> io_step r s s'"
proof (cases r)
  case Orig
  assume "TeeReader_Read r k s = ((p, e), s')"
  with Orig show ?thesis
    by (auto simp: io_step_def TeeReader_Read_def reader_Read_def src_Read_def Buffer_Write_def Let_def
        split: list.splits if_splits prod.splits)
next
  case Buf
  assume t: "TeeReader_Read r k s = ((p, e), s')"
  with Buf have "s' = s \<or> s' = s\<lparr>w := drop k (w s) @ take k (w s)\<rparr>"
    by (auto simp: TeeReader_Read_def reader_Read_def Buffer_Read_def Buffer_Write_def Let_def
        split: if_splits prod.splits)
  then show ?thesis
  proof
    assume "s' = s"
    then show ?thesis by simp
  next
    assume "s' = s\<lparr>w := drop k (w s) @ take k (w s)\<rparr>"
    with Buf Buffer_rotate [of k "w s"] show ?thesis
      by (auto simp: io_step_def)
  qed
qed

lemma fill_loop_io: "io_step r s (fill_loop n r s)"
proof (induction n arbitrary: s)
  case 0
  show ?case by simp
next
  case (Suc n)
  obtain p e s' where t: "TeeReader_Read r (defaultBufSize - length (buf s)) s = ((p, e), s')"
    by (metis prod.exhaust)
  from Suc [of "s'\<lparr>buf := buf s' @ p\<rparr>"] TeeReader_Read_io [OF t]
  show ?case using t by (auto simp: Let_def intro: io_step_trans)
qed

lemma fill_io: "io_step r s (fill r s)"
  by (simp add: fill_def fill_loop_io)

lemma ReadSlice_io: "ReadSlice r s = (res, s') \<Longrightarrow> io_step r s s'"
proof (induction r s arbitrary: res s' rule: ReadSlice.induct)
  case (1 r s)
  show ?case
  proof (cases "IndexByte (buf s) nl = None \<and> err s = None \<and> \<not> defaultBufSize \<le> length (buf s)")
    case True
    with "1.prems" have "ReadSlice r (fill r s) = (res, s')"
      by (simp add: ReadSlice.simps [of r s])
    from "1.IH" [OF _ _ _ this] True have "io_step r (fill r s) s'" by simp
    with fill_io [of r s] show ?thesis by (rule io_step_trans)
  next
    case False
    with "1.prems" show ?thesis
      by (auto simp: ReadSlice.simps [of r s] split: option.splits if_splits)
  qed
qed

lemma readLine_more_io_aux:
  assumes "readLine_more r0 raw0 s0 = Some y0"
  shows "io_step r0 s0 (snd y0)"
proof (rule readLine_more.raw_induct [where P = "\<lambda>r raw s y. io_step r s (snd y)", OF _ assms], goal_cases)
  case (1 rlm r raw s y)
  obtain line e s1 where rs: "ReadSlice r s = ((line, e), s1)"
    by (metis prod.exhaust)
  note st = ReadSlice_io [OF rs]
  show ?case
  proof (cases "e = Some ErrBufferFull")
    case True
    with 1(2) rs have "rlm r (raw @ line) s1 = Some y" by simp
    from 1(1) [OF this] st show ?thesis by (rule io_step_trans [rotated])
  next
    case False
    with 1(2) rs st show ?thesis by auto
  qed
qed

lemma readLine_more_io:
  "readLine_more r raw s = Some (res, s') \<Longrightarrow> io_step r s s'"
  using readLine_more_io_aux by fastforce

lemma readLine_io:
  "readLine r s = Some (res, s') \<Longrightarrow> io_step r s s'"
proof -
  assume a: "readLine r s = Some (res, s')"
  obtain line e s1 where rs: "ReadSlice r s = ((line, e), s1)"
    by (metis prod.exhaust)
  note st = ReadSlice_io [OF rs]
  show ?thesis
  proof (cases "e = Some ErrBufferFull")
    case True
    with a rs obtain le where "readLine_more r line s1 = Some (le, s')"
      by (auto simp: readLine_def split: option.splits)
    from readLine_more_io [OF this] st show ?thesis by (rule io_step_trans [rotated])
  next
    case False
    with a rs st show ?thesis by (auto simp: readLine_def)
  qed
qed

lemma first_line_io_aux:
  assumes "first_line r0 s0 = Some y0"
  shows "io_step r0 s0 (snd y0)"
proof (rule first_line.raw_induct [where P = "\<lambda>r s y. io_step r s (snd y)", OF _ assms], goal_cases)
  case (1 fl r s y)
  from 1(2) obtain line e s1 where rl: "readLine r s = Some ((line, e), s1)"
    by (auto split: option.splits)
  note st = readLine_io [OF rl]
  show ?case
  proof (cases "e = None \<and> length line = lengthNL line")
    case True
    with 1(2) rl have "fl r s1 = Some y" by simp
    from 1(1) [OF this] st show ?thesis by (rule io_step_trans [rotated])
  next
    case False
    with 1(2) rl st show ?thesis by auto
  qed
qed

lemma first_line_io:
  "first_line r s = Some (res, s') \<Longrightarrow> io_step r s s'"
  using first_line_io_aux by fastforce

lemma parseField_io_aux:
  assumes "parseField comma0 r0 inquote0 line0 errRead0 nfields0 s0 = Some y0"
  shows "io_step r0 s0 (snd y0)"
proof (rule parseField.raw_induct [where P = "\<lambda>comma r inquote line errRead nfields s y. io_step r s (snd y)", OF _ assms], goal_cases)
  case (1 pf comma r inquote line errRead nfields s y)
  show ?case
  proof (cases "inquote \<and> IndexByte line quote = None \<and> 0 < length line \<and> errRead = None")
    case True
    with 1(2) obtain line' e s1 where rl: "readLine r s = Some ((line', e), s1)"
      and rest: "pf comma r True line' (if e = Some EOF then None else e) nfields s1 = Some y"
      by (auto split: option.splits)
    from 1(1) [OF rest] readLine_io [OF rl] show ?thesis by (rule io_step_trans [rotated])
  next
    case False
    with 1(2) show ?thesis
      by (auto simp: Let_def split: if_splits option.splits dest: 1(1))
  qed
qed

lemma parseField_io:
  "parseField comma r inquote line errRead nfields s = Some (res, s') \<Longrightarrow> io_step r s s'"
  using parseField_io_aux by fastforce

lemma Read_io:
  "Read comma r s = Some (res, s') \<Longrightarrow> io_step r s s'"
  by (auto simp: Read_def split: if_splits option.splits
      dest!: first_line_io parseField_io intro: io_step_trans)

section \<open>Errors and the buffered reader\<close>

lemma okerr_upd [simp]:
  "okerr r (s\<lparr>buf := b\<rparr>) e = okerr r s e"
  "okerr r (s\<lparr>err := x\<rparr>) e = okerr r s e"
  by (simp_all add: okerr_def)

lemma io_step_okerr: "io_step r s s' \<Longrightarrow> okerr r s e \<Longrightarrow> okerr r s' e"
  by (auto simp: io_step_def okerr_def)

lemma io_step_w: "io_step r s s' \<Longrightarrow> w s \<noteq> [] \<Longrightarrow> w s' \<noteq> []"
  by (cases r) (auto simp: io_step_def dest: sym)

lemma ending_error_cases:
  "ending_error x = EOF \<or> (\<exists>m. ending_error x = SourceError m)"
  by (cases x) simp_all

lemma okerr_not: "\<not> okerr r s ErrBufferFull" "\<not> okerr r s ParseError" "\<not> okerr r s ErrInvalidDelim"
  "\<not> okerr r s IndexOutOfRange"
  using ending_error_cases [of "final (src s)"] by (auto simp: okerr_def)

lemma TeeReader_Read_res:
  assumes "TeeReader_Read r k s = ((p, e), s')" "0 < k"
  shows "(p \<noteq> [] \<longrightarrow> w s' \<noteq> [])" "(\<forall>x. e = Some x \<longrightarrow> okerr r s' x \<and> x \<noteq> ErrNoProgress)"
    "r = Buf \<Longrightarrow> p = [] \<Longrightarrow> e \<noteq> None"
  using assms
  by (auto simp: okerr_def TeeReader_Read_def reader_Read_def src_Read_def Buffer_Read_def Buffer_Write_def Let_def
        split: list.splits if_splits prod.splits reader.splits elim: ending_error.elims)

lemma fill_loop_binv:
  "binv r s \<Longrightarrow> err s = None \<Longrightarrow> length (buf s) < defaultBufSize \<Longrightarrow> (r = Buf \<longrightarrow> 0 < n)
     \<Longrightarrow> binv r (fill_loop n r s)"
proof (induction n arbitrary: s)
  case 0
  then show ?case by (cases r) (auto simp: binv_def okerr_def)
next
  case (Suc n)
  let ?k = "defaultBufSize - length (buf s)"
  obtain p e s' where t: "TeeReader_Read r ?k s = ((p, e), s')"
    by (metis prod.exhaust)
  from Suc.prems have k: "0 < ?k" by simp
  note res = TeeReader_Read_res [OF t k]
  note b = TeeReader_Read_buf_err [OF t]
  note io = TeeReader_Read_io [OF t]
  have ws: "buf s \<noteq> [] \<longrightarrow> w s' \<noteq> []"
    using Suc.prems(1) io_step_w [OF io] by (auto simp: binv_def)
  show ?case
  proof (cases "e \<noteq> None")
    case True
    with t res ws b Suc.prems show ?thesis by (auto simp: binv_def)
  next
    case False
    note ne = this
    show ?thesis
    proof (cases "p \<noteq> []")
      case True
      with t res ws b ne Suc.prems show ?thesis by (auto simp: binv_def)
    next
      case False
      then have id: "s'\<lparr>buf := buf s' @ p\<rparr> = s'" by simp
      from False ne res(3) have ro: "r = Orig" by (cases r) auto
      have "binv r s'" using Suc.prems ws b by (auto simp: binv_def)
      from Suc.IH [OF this] b Suc.prems ro have "binv r (fill_loop n r s')" by simp
      moreover have "fill_loop (Suc n) r s = fill_loop n r s'"
        using t ne False id by simp
      ultimately show ?thesis by simp
    qed
  qed
qed

lemma fill_binv:
  "binv r s \<Longrightarrow> err s = None \<Longrightarrow> length (buf s) < defaultBufSize \<Longrightarrow> binv r (fill r s)"
  by (simp add: fill_def fill_loop_binv)

lemma IndexByte_Some_nonempty: "IndexByte b c = Some i \<Longrightarrow> b \<noteq> []"
  by (cases b) auto

lemma ReadSlice_binv:
  "ReadSlice r s = ((line, e), s') \<Longrightarrow> binv r s \<Longrightarrow>
     binv r s' \<and> (line \<noteq> [] \<longrightarrow> w s' \<noteq> []) \<and> (\<forall>x. e = Some x \<longrightarrow> x = ErrBufferFull \<or> okerr r s' x)
     \<and> (e = None \<longrightarrow> line \<noteq> [])"
proof (induction r s arbitrary: line e s' rule: ReadSlice.induct)
  case (1 r s)
  show ?case
  proof (cases "IndexByte (buf s) nl = None \<and> err s = None \<and> \<not> defaultBufSize \<le> length (buf s)")
    case True
    with "1.prems" have rs: "ReadSlice r (fill r s) = ((line, e), s')"
      by (simp add: ReadSlice.simps [of r s])
    have "binv r (fill r s)" using fill_binv "1.prems"(2) True by simp
    from "1.IH" [OF _ _ _ rs this] True show ?thesis by simp
  next
    case False
    with "1.prems" show ?thesis
      by (auto simp: ReadSlice.simps [of r s] binv_def split: option.splits if_splits
          dest: IndexByte_Some_nonempty)
  qed
qed


lemma readLine_more_binv_aux:
  assumes "readLine_more r0 raw0 s0 = Some y0"
  shows "binv r0 s0 \<longrightarrow> (raw0 \<noteq> [] \<longrightarrow> w s0 \<noteq> []) \<longrightarrow> binv r0 (snd y0) \<and> lineprop r0 (snd y0) (fst y0)"
proof (rule readLine_more.raw_induct [where P = "\<lambda>r raw s y. binv r s \<longrightarrow> (raw \<noteq> [] \<longrightarrow> w s \<noteq> []) \<longrightarrow> binv r (snd y) \<and> lineprop r (snd y) (fst y)", OF _ assms], goal_cases)
  case (1 rlm r raw s y)
  obtain line e s1 where rs: "ReadSlice r s = ((line, e), s1)"
    by (metis prod.exhaust)
  show ?case
  proof (intro impI)
    assume b: "binv r s" and rw: "raw \<noteq> [] \<longrightarrow> w s \<noteq> []"
    note rb = ReadSlice_binv [OF rs b]
    note io = ReadSlice_io [OF rs]
    have rw': "raw @ line \<noteq> [] \<longrightarrow> w s1 \<noteq> []"
      using rw rb io_step_w [OF io] by auto
    show "binv r (snd y) \<and> lineprop r (snd y) (fst y)"
    proof (cases "e = Some ErrBufferFull")
      case True
      with 1(2) rs have "rlm r (raw @ line) s1 = Some y" by simp
      from 1(1) [OF this] rb rw' show ?thesis by simp
    next
      case False
      with 1(2) rs rb rw' show ?thesis by (auto simp: lineprop_def)
    qed
  qed
qed

lemma normalize_line_prop:
  "lineprop r s le \<Longrightarrow> lineprop r s (normalize_line le)"
  by (cases le) (auto simp: lineprop_def normalize_line_def Let_def split: if_splits)

lemma readLine_binv:
  assumes "readLine r s = Some (le, s')" "binv r s"
  shows "binv r s' \<and> lineprop r s' le"
proof -
  obtain line e s1 where rs: "ReadSlice r s = ((line, e), s1)"
    by (metis prod.exhaust)
  note rb = ReadSlice_binv [OF rs assms(2)]
  show ?thesis
  proof (cases "e = Some ErrBufferFull")
    case True
    with assms(1) rs obtain le0 where m: "readLine_more r line s1 = Some (le0, s')"
      and le: "le = normalize_line le0"
      by (auto simp: readLine_def split: option.splits)
    from readLine_more_binv_aux [OF m] rb have "binv r s' \<and> lineprop r s' le0" by simp
    with le show ?thesis by (simp add: normalize_line_prop)
  next
    case False
    with assms(1) rs have s': "s' = s1" and le: "le = normalize_line (line, e)"
      by (auto simp: readLine_def)
    from rb False have "lineprop r s1 (line, e)" by (auto simp: lineprop_def)
    with rb s' le show ?thesis by (simp add: normalize_line_prop)
  qed
qed

lemma first_line_binv_aux:
  assumes "first_line r0 s0 = Some y0"
  shows "binv r0 s0 \<longrightarrow> binv r0 (snd y0) \<and> lineprop r0 (snd y0) (fst y0) \<and> (snd (fst y0) = None \<longrightarrow> fst (fst y0) \<noteq> [])"
proof (rule first_line.raw_induct [where P = "\<lambda>r s y. binv r s \<longrightarrow> binv r (snd y) \<and> lineprop r (snd y) (fst y) \<and> (snd (fst y) = None \<longrightarrow> fst (fst y) \<noteq> [])", OF _ assms], goal_cases)
  case (1 fl r s y)
  from 1(2) obtain line e s1 where rl: "readLine r s = Some ((line, e), s1)"
    by (auto split: option.splits)
  show ?case
  proof
    assume b: "binv r s"
    note rb = readLine_binv [OF rl b]
    show "binv r (snd y) \<and> lineprop r (snd y) (fst y) \<and> (snd (fst y) = None \<longrightarrow> fst (fst y) \<noteq> [])"
    proof (cases "e = None \<and> length line = lengthNL line")
      case True
      with 1(2) rl have "fl r s1 = Some y" by simp
      from 1(1) [OF this] rb show ?thesis by simp
    next
      case False
      with 1(2) rl rb show ?thesis by (auto simp: lengthNL_def)
    qed
  qed
qed

lemma parseField_binv_aux:
  assumes "parseField comma0 r0 inquote0 line0 errRead0 nfields0 s0 = Some y0"
  shows "binv r0 s0 \<longrightarrow> (\<forall>x. errRead0 = Some x \<longrightarrow> okerr r0 s0 x) \<longrightarrow>
     binv r0 (snd y0) \<and> (\<forall>x. snd (fst y0) = Some x \<longrightarrow> okerr r0 (snd y0) x) \<and>
     (errRead0 \<noteq> None \<longrightarrow> snd (fst y0) \<noteq> None) \<and> (snd (fst y0) = None \<longrightarrow> nfields0 < fst (fst y0))"
proof (rule parseField.raw_induct [where P = "\<lambda>comma r inquote line errRead nfields s y.
     binv r s \<longrightarrow> (\<forall>x. errRead = Some x \<longrightarrow> okerr r s x) \<longrightarrow>
     binv r (snd y) \<and> (\<forall>x. snd (fst y) = Some x \<longrightarrow> okerr r (snd y) x) \<and>
     (errRead \<noteq> None \<longrightarrow> snd (fst y) \<noteq> None) \<and> (snd (fst y) = None \<longrightarrow> nfields < fst (fst y))", OF _ assms], goal_cases)
  case (1 pf comma r inquote line errRead nfields s y)
  show ?case
  proof (intro impI)
    assume b: "binv r s" and ok: "\<forall>x. errRead = Some x \<longrightarrow> okerr r s x"
    show "binv r (snd y) \<and> (\<forall>x. snd (fst y) = Some x \<longrightarrow> okerr r (snd y) x) \<and>
     (errRead \<noteq> None \<longrightarrow> snd (fst y) \<noteq> None) \<and> (snd (fst y) = None \<longrightarrow> nfields < fst (fst y))"
    proof (cases "inquote \<and> IndexByte line quote = None \<and> 0 < length line \<and> errRead = None")
      case True
      with 1(2) obtain line' e s1 where rl: "readLine r s = Some ((line', e), s1)"
        and rest: "pf comma r True line' (if e = Some EOF then None else e) nfields s1 = Some y"
        by (auto split: option.splits)
      from readLine_binv [OF rl b] have b1: "binv r s1" and lp: "lineprop r s1 (line', e)" by simp_all
      from lp have "\<forall>x. (if e = Some EOF then None else e) = Some x \<longrightarrow> okerr r s1 x"
        by (auto simp: lineprop_def)
      with 1(1) [OF rest] b1 True show ?thesis by simp
    next
      case False
      with 1(2) b ok show ?thesis
        apply (simp add: Let_def split: if_splits option.splits)
        apply (auto dest!: 1(1))
        done
    qed
  qed
qed

lemma Read_binv:
  assumes "Read comma r s = Some ((n, e), s')" "binv r s"
  shows "binv r s'" "\<forall>x. e = Some x \<longrightarrow> x = ErrInvalidDelim \<or> okerr r s' x"
    "e = None \<longrightarrow> 1 \<le> n \<and> w s' \<noteq> []"
proof -
  have "binv r s' \<and> (\<forall>x. e = Some x \<longrightarrow> x = ErrInvalidDelim \<or> okerr r s' x) \<and>
    (e = None \<longrightarrow> 1 \<le> n \<and> w s' \<noteq> [])"
  proof (cases "validDelim comma")
    case False
    with assms show ?thesis by (auto simp: Read_def)
  next
    case True
    with assms(1) obtain line e0 s1 where fl: "first_line r s = Some ((line, e0), s1)"
      by (auto simp: Read_def split: option.splits)
    from first_line_binv_aux [OF fl] assms(2)
    have b1: "binv r s1" and lp: "lineprop r s1 (line, e0)" and ne: "e0 = None \<longrightarrow> line \<noteq> []"
      by simp_all
    show ?thesis
    proof (cases "e0 = Some EOF")
      case True
      with assms(1) fl \<open>validDelim comma\<close> b1 lp show ?thesis
        by (auto simp: Read_def lineprop_def)
    next
      case False
      with assms(1) fl \<open>validDelim comma\<close>
      have pf: "parseField (EncodeRune comma) r False line e0 0 s1 = Some ((n, e), s')"
        by (auto simp: Read_def)
      from lp have ok0: "\<forall>x. e0 = Some x \<longrightarrow> okerr r s1 x" by (simp add: lineprop_def)
      from parseField_binv_aux [OF pf] b1 ok0
      have r1: "binv r s'" and r2: "\<forall>x. e = Some x \<longrightarrow> okerr r s' x"
        and r3: "e0 \<noteq> None \<longrightarrow> e \<noteq> None" and r4: "e = None \<longrightarrow> 0 < n"
        by simp_all
      have "e = None \<longrightarrow> w s' \<noteq> []"
      proof
        assume "e = None"
        with r3 have "e0 = None" by auto
        with ne lp have "w s1 \<noteq> []" by (simp add: lineprop_def)
        with io_step_w [OF parseField_io [OF pf]] show "w s' \<noteq> []" by simp
      qed
      with r1 r2 r4 show ?thesis by auto
    qed
  qed
  then show "binv r s'" "\<forall>x. e = Some x \<longrightarrow> x = ErrInvalidDelim \<or> okerr r s' x"
    "e = None \<longrightarrow> 1 \<le> n \<and> w s' \<noteq> []"
    by simp_all
qed

lemma probe_loop_post_aux:
  assumes "probe_loop (Read d0 r0) i0 n0 nums0 s0 = Some res0"
  shows "binv r0 s0 \<longrightarrow> loop_post r0 i0 n0 nums0 s0 res0"
proof -
  have "Read d0 r0 = Read d0 r0 \<longrightarrow> binv r0 s0 \<longrightarrow> loop_post r0 i0 n0 nums0 s0 res0"
  proof (rule probe_loop.raw_induct [where P = "\<lambda>rd i n nums s res. rd = Read d0 r0 \<longrightarrow> binv r0 s \<longrightarrow> loop_post r0 i n nums s res", OF _ assms], goal_cases)
    case (1 pl rd i n nums s res)
    show ?case
    proof (intro impI)
      assume rdeq: "rd = Read d0 r0" and b: "binv r0 s"
      show "loop_post r0 i n nums s res"
        proof (cases "i < n")
          case False
          with 1(2) b show ?thesis by (auto simp: loop_post_def)
        next
          case True
          with 1(2) rdeq obtain k e s1 where rd: "Read d0 r0 s = Some ((k, e), s1)"
            by (auto split: option.splits)
          note rb = Read_binv [OF rd b]
          note io = Read_io [OF rd]
          consider (ok) "e = None" | (eof) "e = Some EOF" | (other) x where "e = Some x" "x \<noteq> EOF"
            by (cases e) auto
          then show ?thesis
          proof cases
            case ok
            with 1(2) rd rdeq True have rec: "pl rd (i + 1) n (nums @ [int k]) s1 = Some res" by simp
            from 1(1) [OF rec] rb(1) rdeq have lp: "loop_post r0 (i + 1) n (nums @ [int k]) s1 res" by simp
            from rb(3) ok have k: "1 \<le> k" and w1: "w s1 \<noteq> []" by simp_all
            show ?thesis
            proof (cases res)
              case (Inl x)
              with lp True io show ?thesis
                by (auto simp: loop_post_def intro: io_step_trans)
            next
              case (Inr t)
              obtain n' nums' s' where t: "t = (n', nums', s')" by (cases t) auto
              from lp Inr t obtain new where
                bs: "binv r0 s'" and io': "io_step r0 s1 s'" and
                n1: "nums' = (nums @ [int k]) @ new" and n2: "\<forall>x\<in>set new. 1 \<le> x" and
                n4: "\<not> i + 1 < n \<longrightarrow> n' = n \<and> new = [] \<and> s' = s1" and
                n5: "i + 1 < n \<longrightarrow> int (length new) = n' - (i + 1) \<and> i + 1 \<le> n' \<and> n' \<le> n \<and> (n' < n \<longrightarrow> okerr r0 s' EOF)"
                by (auto simp: loop_post_def)
              have "io_step r0 s s'" using io io' by (rule io_step_trans)
              moreover have "w s' \<noteq> []" using io_step_w [OF io' w1] .
              moreover have "nums' = nums @ (int k # new)" using n1 by simp
              moreover have "\<forall>x\<in>set (int k # new). 1 \<le> x" using n2 k by simp
              moreover have "int (length (int k # new)) = n' - i \<and> i \<le> n' \<and> n' \<le> n \<and> (n' < n \<longrightarrow> okerr r0 s' EOF)"
                using n4 n5 True by (cases "i + 1 < n") auto
              ultimately show ?thesis using Inr t bs True
                unfolding loop_post_def by (simp del: list.set)
            qed
          next
            case eof
            with 1(2) rd rdeq True have "res = Inr (i, nums, s1)" by simp
            with rb eof io True show ?thesis by (auto simp: loop_post_def)
          next
            case other
            with rb(2) okerr_not(2) have np: "x \<noteq> ParseError" by auto
            with 1(2) rd rdeq True other have "res = Inl x" by simp
            with rb(2) other np io True show ?thesis by (auto simp: loop_post_def)
          qed
        qed
    qed
  qed
  then show ?thesis by simp
qed


section \<open>Trials and the loop over the delimiters\<close>

lemma binv_start: "binv r \<lparr>src = sr, w = wr, buf = [], err = None\<rparr>"
  by (simp add: binv_def)

lemma probe_loop_Buf:
  assumes "probe_loop (Read d Buf) 0 n [] \<lparr>src = sr, w = wr, buf = [], err = None\<rparr> = Some res"
    and g: "wr \<noteq> [] \<or> n \<le> 0"
  shows "case res of
           Inl e \<Rightarrow> e = ErrInvalidDelim
         | Inr (n', nums, s') \<Rightarrow>
             n' = n \<and> src s' = sr \<and> (\<exists>k. w s' = rotate k wr) \<and> (\<forall>x\<in>set nums. 1 \<le> x) \<and>
             int (length nums) = max 0 n"
proof -
  let ?s = "\<lparr>src = sr, w = wr, buf = [], err = None\<rparr>"
  from probe_loop_post_aux [OF assms(1)] binv_start have lp: "loop_post Buf 0 n [] ?s res" by simp
  show ?thesis
  proof (cases res)
    case (Inl e)
    with lp have n: "0 < n" and d: "e = ErrInvalidDelim \<or> (\<exists>s'. io_step Buf ?s s' \<and> okerr Buf s' e)"
      by (auto simp: loop_post_def)
    from n g have "w ?s \<noteq> []" by simp
    then have "\<not> (\<exists>s'. io_step Buf ?s s' \<and> okerr Buf s' e)"
      using io_step_w by (auto simp: okerr_def)
    with d Inl show ?thesis by simp
  next
    case (Inr t)
    obtain n' nums s' where t: "t = (n', nums, s')" by (cases t) auto
    from lp Inr t have io: "io_step Buf ?s s'" and one: "\<forall>x\<in>set nums. 1 \<le> x"
      and a: "\<not> 0 < n \<longrightarrow> n' = n \<and> nums = []"
      and b: "0 < n \<longrightarrow> int (length nums) = n' \<and> 0 \<le> n' \<and> n' \<le> n \<and> (n' < n \<longrightarrow> okerr Buf s' EOF)"
      by (auto simp: loop_post_def)
    have "n' = n"
    proof (cases "0 < n")
      case True
      with g have "w ?s \<noteq> []" by simp
      with io_step_w [OF io] have "\<not> okerr Buf s' EOF" by (simp add: okerr_def)
      with b True show ?thesis by auto
    next
      case False
      with a show ?thesis by simp
    qed
    moreover have "int (length nums) = max 0 n" using a b \<open>n' = n\<close> by (cases "0 < n") auto
    moreover from io have "src s' = sr" "\<exists>k. w s' = rotate k wr" by (auto simp: io_step_def)
    ultimately show ?thesis using Inr t one by simp
  qed
qed

lemma probe_loop_Orig:
  assumes "probe_loop (Read d Orig) 0 n [] \<lparr>src = sr, w = [], buf = [], err = None\<rparr> = Some res"
  shows "case res of
           Inl e \<Rightarrow> e \<noteq> EOF \<and> e \<noteq> ParseError \<and>
                    (e = ErrInvalidDelim \<or> e = ErrNoProgress \<or> e = ending_error (final sr))
         | Inr (n', nums, s') \<Rightarrow>
             (w s' \<noteq> [] \<or> n' \<le> 0) \<and> (\<forall>x\<in>set nums. 1 \<le> x) \<and> int (length nums) = max 0 n' \<and>
             n' \<le> n \<and> (n' < n \<longrightarrow> blocks (src s') = []) \<and>
             final (src s') = final sr \<and> w s' @ concat (blocks (src s')) = concat (blocks sr)"
proof -
  let ?s = "\<lparr>src = sr, w = [], buf = [], err = None\<rparr>"
  from probe_loop_post_aux [OF assms(1)] binv_start have lp: "loop_post Orig 0 n [] ?s res" by simp
  show ?thesis
  proof (cases res)
    case (Inl e)
    with lp show ?thesis
      by (auto simp: loop_post_def okerr_def io_step_def)
  next
    case (Inr t)
    obtain n' nums s' where t: "t = (n', nums, s')" by (cases t) auto
    from lp Inr t have io: "io_step Orig ?s s'" and one: "\<forall>x\<in>set nums. 1 \<le> x"
      and wn: "nums \<noteq> [] \<longrightarrow> w s' \<noteq> []"
      and a: "\<not> 0 < n \<longrightarrow> n' = n \<and> nums = []"
      and b: "0 < n \<longrightarrow> int (length nums) = n' \<and> 0 \<le> n' \<and> n' \<le> n \<and> (n' < n \<longrightarrow> okerr Orig s' EOF)"
      by (auto simp: loop_post_def)
    have "w s' \<noteq> [] \<or> n' \<le> 0" using a b wn by (cases "0 < n"; cases "nums = []") auto
    moreover have "int (length nums) = max 0 n'" using a b by (cases "0 < n") auto
    moreover have "n' \<le> n" using a b by (cases "0 < n") auto
    moreover have "n' < n \<longrightarrow> blocks (src s') = []" using a b by (cases "0 < n") (auto simp: okerr_def)
    moreover from io have "final (src s') = final sr" "w s' @ concat (blocks (src s')) = concat (blocks sr)"
      by (auto simp: io_step_def)
    ultimately show ?thesis using Inr t one by simp
  qed
qed


lemma probe_delims_Buf:
  "probe_delims ds Buf n prob sr wr = Some res \<Longrightarrow> wr \<noteq> [] \<or> n \<le> 0 \<Longrightarrow>
     (case res of
        Inl e \<Rightarrow> e = ErrInvalidDelim
      | Inr (prob', n', sr', wr') \<Rightarrow>
          n' = n \<and> sr' = sr \<and> (\<exists>k. wr' = rotate k wr) \<and>
          (\<exists>new. prob' = prob @ new \<and> (\<forall>c\<in>set new. cand_ok n c)))"
proof (induction ds arbitrary: prob wr)
  case Nil
  have "wr = rotate 0 wr" by simp
  then have "\<exists>k. wr = rotate k wr" by (rule exI)
  with Nil show ?case by auto
next
  case (Cons d ds)
  let ?s = "\<lparr>src = sr, w = wr, buf = [], err = None\<rparr>"
  from Cons.prems(1) obtain lres where pl: "probe_loop (Read d Buf) 0 n [] ?s = Some lres"
    by (auto split: option.splits)
  note pb = probe_loop_Buf [OF pl Cons.prems(2)]
  show ?case
  proof (cases lres)
    case (Inl e)
    with pb pl Cons.prems(1) show ?thesis by auto
  next
    case (Inr t)
    obtain n' nums s' where t: "t = (n', nums, s')" by (cases t) auto
    from pb Inr t obtain k where n': "n' = n" and sr': "src s' = sr" and rot: "w s' = rotate k wr"
      and one: "\<forall>x\<in>set nums. 1 \<le> x" and len: "int (length nums) = max 0 n"
      by auto
    from rot Cons.prems(2) have g': "w s' \<noteq> [] \<or> n \<le> 0" by auto
    show ?thesis
    proof (cases "nums = []")
      case True
      with Cons.prems(1) pl Inr t n' sr' have "probe_delims ds Buf n prob sr (w s') = Some res"
        by simp
      from Cons.IH [OF this g'] rot show ?thesis
        by (auto split: sum.splits simp: rotate_rotate)
    next
      case False
      then obtain st where st: "genstatdata nums = Some st" using genstatdata_Some by blast
      let ?c = "\<lparr> Min_v = Min_v st, LQ = LQ st, Median = Median st, UQ = UQ st,
                  Max_v = Max_v st, Mean = Mean st, Stddev = Stddev st,
                  Parsedrecords = int (length nums), Delimiter = d \<rparr>"
      from False have "0 < length nums" by simp
      with len have "1 \<le> int (length nums)" "int (length nums) \<le> n" by linarith+
      then have "cand_ok n ?c"
        using genstatdata_Mean_ge_1 [OF st one] by (simp add: cand_ok_def)
      moreover from Cons.prems(1) pl Inr t n' sr' False st
      have "probe_delims ds Buf n (prob @ [?c]) sr (w s') = Some res"
        by simp
      from Cons.IH [OF this g'] rot have
        "case res of
           Inl e \<Rightarrow> e = ErrInvalidDelim
         | Inr (prob', n', sr', wr') \<Rightarrow>
             n' = n \<and> sr' = sr \<and> (\<exists>k. wr' = rotate k wr) \<and>
             (\<exists>new. prob' = (prob @ [?c]) @ new \<and> (\<forall>c\<in>set new. cand_ok n c))"
        by (auto split: sum.splits simp: rotate_rotate)
      ultimately show ?thesis
        by (auto split: sum.splits)
    qed
  qed
qed

lemma mset_insert_left: "mset (insert_left lt x ys) = add_mset x (mset ys)"
  by (induction ys) auto

lemma mset_foldl_insert_left:
  "mset (foldl (\<lambda>acc x. insert_left lt x acc) acc xs) = mset acc + mset xs"
  by (induction xs arbitrary: acc) (auto simp: mset_insert_left)

lemma mset_insertionSort: "mset (insertionSort lt xs) = mset xs"
  by (simp add: insertionSort_def mset_foldl_insert_left)

lemma set_insertionSort: "set (insertionSort lt xs) = set xs"
  using mset_insertionSort [of lt xs] by (metis set_mset_mset)

lemma set_insert_left: "set (insert_left lt x ys) = insert x (set ys)"
  using mset_insert_left [of lt x ys] by (metis set_mset_mset set_mset_add_mset_insert)

lemma sorted_insert_left:
  fixes f :: "'a \<Rightarrow> real"
  assumes "\<forall>a\<in>insert x (set ys). \<forall>b\<in>insert x (set ys). lt a b = (f a < f b)"
    and "sorted_wrt (\<lambda>a b. f b \<le> f a) ys"
  shows "sorted_wrt (\<lambda>a b. f b \<le> f a) (insert_left lt x ys)"
  using assms
proof (induction ys)
  case Nil
  show ?case by simp
next
  case (Cons y ys)
  then show ?case by (auto simp: set_insert_left)
qed

lemma sorted_foldl_insert_left:
  fixes f :: "'a \<Rightarrow> real"
  assumes "\<forall>a\<in>set acc \<union> set xs. \<forall>b\<in>set acc \<union> set xs. lt a b = (f a < f b)"
    and "sorted_wrt (\<lambda>a b. f b \<le> f a) acc"
  shows "sorted_wrt (\<lambda>a b. f b \<le> f a) (foldl (\<lambda>acc x. insert_left lt x acc) acc xs)"
  using assms
proof (induction xs arbitrary: acc)
  case Nil
  then show ?case by simp
next
  case (Cons x xs)
  have "sorted_wrt (\<lambda>a b. f b \<le> f a) (insert_left lt x acc)"
    using Cons.prems by (intro sorted_insert_left) auto
  moreover have "\<forall>a\<in>set (insert_left lt x acc) \<union> set xs.
      \<forall>b\<in>set (insert_left lt x acc) \<union> set xs. lt a b = (f a < f b)"
    using Cons.prems(1) by (auto simp: set_insert_left)
  ultimately show ?case using Cons.IH [of "insert_left lt x acc"] by simp
qed

text \<open>
  The insertion sort puts a list in ascending order of a key whenever \<open>Less\<close> is the
  strict order of that key on the elements of the list.
\<close>

lemma sorted_insertionSort:
  fixes f :: "'a \<Rightarrow> real"
  assumes "\<forall>a\<in>set xs. \<forall>b\<in>set xs. lt a b = (f a < f b)"
  shows "sorted_wrt (\<lambda>a b. f a \<le> f b) (insertionSort lt xs)"
  using sorted_foldl_insert_left [of "[]" xs lt f] assms
  by (simp add: insertionSort_def sorted_wrt_rev)


lemma Probe_run_Nil:
  "Delimiters p = [] \<Longrightarrow>
     Probe_run p sr = Some (Inr (\<lparr> CSVprobability = [], ActualLines = RecordstoProbe p \<rparr>, sr, []))"
  by (simp add: Probe_run_def insertionSort_def)

lemma Probe_run_facts:
  assumes "Probe_run p sr = Some (Inr (res, sr', wr'))" "Delimiters p = d # ds"
  shows "\<exists>nums s1 k.
           probe_loop (Read d Orig) 0 (RecordstoProbe p) [] \<lparr>src = sr, w = [], buf = [], err = None\<rparr>
             = Some (Inr (ActualLines res, nums, s1)) \<and>
           sr' = src s1 \<and> wr' = rotate k (w s1) \<and>
           (\<forall>c\<in>set (CSVprobability res). cand_ok (ActualLines res) c)"
proof -
  let ?n = "RecordstoProbe p"
  let ?s = "\<lparr>src = sr, w = [], buf = [], err = None\<rparr>"
  from assms obtain prob where pd: "probe_delims (d # ds) Orig ?n [] sr [] = Some (Inr (prob, ActualLines res, sr', wr'))"
    and cs: "CSVprobability res = insertionSort Less prob"
    by (auto simp: Probe_run_def split: option.splits sum.splits)
  from pd obtain n1 nums s1 where pl: "probe_loop (Read d Orig) 0 ?n [] ?s = Some (Inr (n1, nums, s1))"
    by (auto split: option.splits sum.splits)
  from probe_loop_Orig [OF pl] have g: "w s1 \<noteq> [] \<or> n1 \<le> 0" and one: "\<forall>x\<in>set nums. 1 \<le> x"
    and len: "int (length nums) = max 0 n1" by simp_all
  obtain prob1 where rest: "probe_delims ds Buf n1 prob1 (src s1) (w s1) = Some (Inr (prob, ActualLines res, sr', wr'))"
    and p1: "\<forall>c\<in>set prob1. cand_ok n1 c"
  proof (cases "nums = []")
    case True
    with pd pl have "probe_delims ds Buf n1 [] (src s1) (w s1) = Some (Inr (prob, ActualLines res, sr', wr'))"
      by simp
    then show ?thesis using that [of "[]"] by simp
  next
    case False
    then obtain st where st: "genstatdata nums = Some st" using genstatdata_Some by blast
    let ?c = "\<lparr> Min_v = Min_v st, LQ = LQ st, Median = Median st, UQ = UQ st,
                  Max_v = Max_v st, Mean = Mean st, Stddev = Stddev st,
                  Parsedrecords = int (length nums), Delimiter = d \<rparr>"
    from False have "0 < length nums" by simp
    with len have "1 \<le> int (length nums)" "int (length nums) \<le> n1" by linarith+
    then have "cand_ok n1 ?c"
      using genstatdata_Mean_ge_1 [OF st one] by (simp add: cand_ok_def)
    moreover from pd pl False st have "probe_delims ds Buf n1 [?c] (src s1) (w s1) = Some (Inr (prob, ActualLines res, sr', wr'))"
      by simp
    ultimately show ?thesis using that [of "[?c]"] by simp
  qed
  from probe_delims_Buf [OF rest g] obtain k new where n1: "ActualLines res = n1" and "sr' = src s1"
    and "wr' = rotate k (w s1)" and "prob = prob1 @ new" and "\<forall>c\<in>set new. cand_ok n1 c"
    by auto
  with p1 pl cs show ?thesis
    by (auto simp: set_insertionSort)
qed


section \<open>Running the model on concrete streams\<close>

lemma EncodeRune_comma: "EncodeRune 0x2C = '',''" by code_simp
lemma EncodeRune_semicolon: "EncodeRune 0x3B = '';''" by code_simp
lemma EncodeRune_hash: "EncodeRune 0x23 = ''#''" by code_simp
lemma EncodeRune_pipe: "EncodeRune 0x7C = ''|''" by code_simp

lemma fill_loop_pos:
  "0 < n \<Longrightarrow> fill_loop n r s =
     (let ((p, e), s') = TeeReader_Read r (defaultBufSize - length (buf s)) s;
          s'' = s'\<lparr>buf := buf s' @ p\<rparr>
      in if e \<noteq> None then s''\<lparr>err := e\<rparr>
         else if p \<noteq> [] then s''
         else fill_loop (n - 1) r s'')"
  by (cases n) (simp_all only: fill_loop.simps diff_Suc_1)

lemmas csv_eval =
  Read_def validDelim_def ValidRune_def first_line.simps readLine_def readLine_more.simps
  normalize_line_def parseField.simps lengthNL_def HasPrefix_def
  EncodeRune_comma EncodeRune_semicolon EncodeRune_hash EncodeRune_pipe
  nl_def cr_def quote_def ReadSlice.simps fill_def fill_loop_pos
  TeeReader_Read_def reader_Read_def src_Read_def Buffer_Read_def Buffer_Write_def
  defaultBufSize_def Let_def probe_loop.simps


lemmas probe_eval = csv_eval Probe_run_def Probe_def genstatdata_def sum_squaresum_def
  wrap64_def float64_of_def Sqrt_def insertionSort_def Less_def float64_div_def


section \<open>The prober's results\<close>

text \<open>
  C9. With an empty delimiter list \<open>Probe\<close> returns a result with no candidates and
  \<open>ActualLines\<close> equal to the configured \<open>RecordstoProbe\<close>, whatever the stream; the
  caller's reader is left as it was (nothing is read) and the buffer stays empty.
\<close>

theorem C9_empty_delimiters:
  "Probe_run \<lparr> RecordstoProbe = n, Delimiters = [] \<rparr> sr =
     Some (Inr (\<lparr> CSVprobability = [], ActualLines = n \<rparr>, sr, []))"
  by (simp add: Probe_run_Nil)

lemma Probe_Inr_run:
  "Probe p sr = Some (Inr res) \<Longrightarrow> \<exists>sr' wr'. Probe_run p sr = Some (Inr (res, sr', wr'))"
  by (cases "Probe_run p sr") (auto simp: Probe_def map_sum_def split: sum.splits)




lemmas stream_eval = csv_eval stream_records.simps fresh_def

section \<open>Errors of \<open>Probe\<close>\<close>

lemma ending_error_not [simp]:
  "ending_error x \<noteq> IndexOutOfRange" "ending_error x \<noteq> ParseError" "ending_error x \<noteq> ErrInvalidDelim"
  by (cases x; simp)+

lemma Probe_Inl_run:
  "Probe p sr = Some (Inl e) \<Longrightarrow> Probe_run p sr = Some (Inl e)"
  by (cases "Probe_run p sr") (auto simp: Probe_def map_sum_def split: sum.splits)

lemma Probe_run_Inl:
  assumes "Probe_run p sr = Some (Inl e)"
  shows "e \<noteq> EOF \<and> e \<noteq> ParseError \<and> e \<noteq> IndexOutOfRange \<and>
    (e = ErrInvalidDelim \<or> e = ErrNoProgress \<or> e = ending_error (final sr))"
proof (cases "Delimiters p")
  case Nil
  with assms show ?thesis by (simp add: Probe_run_Nil)
next
  case (Cons d ds)
  let ?n = "RecordstoProbe p"
  let ?s = "\<lparr>src = sr, w = [], buf = [], err = None\<rparr>"
  from assms Cons have pd: "probe_delims (d # ds) Orig ?n [] sr [] = Some (Inl e)"
    by (auto simp: Probe_run_def split: option.splits sum.splits)
  then obtain lres where pl: "probe_loop (Read d Orig) 0 ?n [] ?s = Some lres"
    by (auto split: option.splits)
  note po = probe_loop_Orig [OF pl]
  show ?thesis
  proof (cases lres)
    case (Inl e')
    with pd pl have "e' = e" by simp
    with po Inl show ?thesis using ending_error_not(1) [of "final sr"] by (auto dest: sym)
  next
    case (Inr t)
    obtain n1 nums s1 where t: "t = (n1, nums, s1)" by (cases t) auto
    from po Inr t have g: "w s1 \<noteq> [] \<or> n1 \<le> 0" by simp
    have "\<exists>prob1. probe_delims ds Buf n1 prob1 (src s1) (w s1) = Some (Inl e)"
    proof (cases "nums = []")
      case True
      with pd pl Inr t show ?thesis by auto
    next
      case False
      then obtain st where "genstatdata nums = Some st" using genstatdata_Some by blast
      with pd pl Inr t False show ?thesis by auto
    qed
    then obtain prob1 where "probe_delims ds Buf n1 prob1 (src s1) (w s1) = Some (Inl e)" ..
    from probe_delims_Buf [OF this g] show ?thesis by simp
  qed
qed

lemma EncodeRune_nonempty: "EncodeRune r \<noteq> []"
  by (simp add: EncodeRune_def)

lemma Read_failing_source:
  assumes "validDelim d" "blocks sr = []" "final sr = Failure msg"
  shows "Read d Orig \<lparr>src = sr, w = [], buf = [], err = None\<rparr> =
    Some ((1, Some (SourceError msg)), \<lparr>src = sr, w = [], buf = [], err = None\<rparr>)"
  using assms EncodeRune_nonempty [of d]
  by (simp add: Read_def first_line.simps readLine_def readLine_more.simps normalize_line_def
      parseField.simps lengthNL_def ReadSlice.simps fill_def fill_loop_pos
      TeeReader_Read_def reader_Read_def src_Read_def defaultBufSize_def Let_def)

text \<open>
  C6, as stated, fails in the ``only if'' direction: with the double quote as delimiter
  the CSV reader refuses the delimiter and \<open>Probe\<close> returns that error, on a stream whose
  reads never fail.
\<close>

theorem C6_counterexample:
  "Probe \<lparr> RecordstoProbe = 200, Delimiters = [0x22] \<rparr> one_record = Some (Inl ErrInvalidDelim)"
  by (simp add: one_record_def probe_eval)

text \<open>
  C6, amended. An error \<open>Probe\<close> returns is neither \<open>io.EOF\<close> nor a parse error: it is
  the error the caller's reader ends with, or the buffered reader's no-progress error,
  or the CSV reader's refusal of an invalid delimiter. In the trial loop a \<open>Read\<close> that
  reports such an error ends the probe at once with that error and no result; a parse
  error is skipped (the sample is unchanged and the next record is tried); \<open>io.EOF\<close>
  ends the trial with \<open>recordstoprobe\<close> set to the number of attempts made. A reader
  that fails on its first read makes \<open>Probe\<close> return its error.
\<close>

theorem C6_error_return:
  "(Probe p sr = Some (Inl e) \<longrightarrow>
      e \<noteq> EOF \<and> e \<noteq> ParseError \<and>
      (e = ErrInvalidDelim \<or> e = ErrNoProgress \<or> e = ending_error (final sr))) \<and>
   (i < n \<longrightarrow> rd s = Some ((k, Some e'), s') \<longrightarrow> e' \<noteq> EOF \<longrightarrow> e' \<noteq> ParseError \<longrightarrow>
      probe_loop rd i n nums s = Some (Inl e')) \<and>
   (i < n \<longrightarrow> rd s = Some ((k, Some ParseError), s') \<longrightarrow>
      probe_loop rd i n nums s = probe_loop rd (i + 1) n nums s') \<and>
   (i < n \<longrightarrow> rd s = Some ((k, Some EOF), s') \<longrightarrow>
      probe_loop rd i n nums s = Some (Inr (i, nums, s'))) \<and>
   (0 < RecordstoProbe p \<longrightarrow> Delimiters p = d # ds \<longrightarrow> validDelim d \<longrightarrow>
      blocks sr = [] \<longrightarrow> final sr = Failure msg \<longrightarrow>
      Probe p sr = Some (Inl (SourceError msg)))"
proof (intro conjI impI)
  assume "Probe p sr = Some (Inl e)"
  from Probe_run_Inl [OF Probe_Inl_run [OF this]]
  show "e \<noteq> EOF" "e \<noteq> ParseError" "e = ErrInvalidDelim \<or> e = ErrNoProgress \<or> e = ending_error (final sr)"
    by simp_all
next
  assume "i < n" "rd s = Some ((k, Some e'), s')" "e' \<noteq> EOF" "e' \<noteq> ParseError"
  then show "probe_loop rd i n nums s = Some (Inl e')"
    by (simp add: probe_loop.simps [of rd i n nums s])
next
  assume "i < n" "rd s = Some ((k, Some ParseError), s')"
  then show "probe_loop rd i n nums s = probe_loop rd (i + 1) n nums s'"
    by (simp add: probe_loop.simps [of rd i n nums s])
next
  assume "i < n" "rd s = Some ((k, Some EOF), s')"
  then show "probe_loop rd i n nums s = Some (Inr (i, nums, s'))"
    by (simp add: probe_loop.simps [of rd i n nums s])
next
  assume "0 < RecordstoProbe p" "Delimiters p = d # ds" "validDelim d" "blocks sr = []"
    "final sr = Failure msg"
  then show "Probe p sr = Some (Inl (SourceError msg))"
    by (simp add: Probe_def Probe_run_def Read_failing_source
        probe_loop.simps [of "Read d Orig" 0 "RecordstoProbe p"])
qed

theorem C6_error_return_witness:
  "Probe \<lparr> RecordstoProbe = 200, Delimiters = [0x2C] \<rparr> failing_source = Some (Inl (SourceError ''disk'')) \<and>
   (SourceError ''disk'' \<noteq> EOF \<and> SourceError ''disk'' \<noteq> ParseError \<and>
    (SourceError ''disk'' = ErrInvalidDelim \<or> SourceError ''disk'' = ErrNoProgress \<or>
     SourceError ''disk'' = ending_error (final failing_source))) \<and>
   probe_loop failing_reader 0 2 [] (fresh failing_source) = Some (Inl (SourceError ''disk'')) \<and>
   probe_loop skipping_reader 0 2 [] (fresh failing_source)
     = probe_loop skipping_reader 1 2 [] (fresh failing_source) \<and>
   probe_loop ending_reader 0 2 [7] (fresh failing_source) = Some (Inr (0, [7], fresh failing_source))"
proof -
  let ?p = "\<lparr> RecordstoProbe = 200, Delimiters = [0x2C] \<rparr>"
  let ?e = "SourceError ''disk''"
  let ?s = "fresh failing_source"
  have v: "validDelim 0x2C" by (simp add: validDelim_def ValidRune_def)
  have 1: "Probe ?p failing_source = Some (Inl ?e)"
    using C6_error_return [of ?p failing_source ?e 0 2 failing_reader ?s 1 ?e ?s "[]" "0x2C" "[]" "''disk''"] v
    by (simp add: failing_source_def)
  have 2: "probe_loop failing_reader 0 2 [] ?s = Some (Inl ?e)"
    using C6_error_return [of ?p failing_source ?e 0 2 failing_reader ?s 1 ?e ?s "[]" "0x2C" "[]" "''disk''"]
    by (simp add: failing_reader_def)
  have 3: "probe_loop skipping_reader 0 2 [] ?s = probe_loop skipping_reader 1 2 [] ?s"
    using C6_error_return [of ?p failing_source ?e 0 2 skipping_reader ?s 0 ?e ?s "[]" "0x2C" "[]" "''disk''"]
    by (simp add: skipping_reader_def)
  have 4: "probe_loop ending_reader 0 2 [7] ?s = Some (Inr (0, [7], ?s))"
    using C6_error_return [of ?p failing_source ?e 0 2 ending_reader ?s 0 ?e ?s "[7]" "0x2C" "[]" "''disk''"]
    by (simp add: ending_reader_def)
  have 0: "?e \<noteq> EOF \<and> ?e \<noteq> ParseError \<and>
    (?e = ErrInvalidDelim \<or> ?e = ErrNoProgress \<or> ?e = ending_error (final failing_source))"
    using C6_error_return [of ?p failing_source ?e 0 2 failing_reader ?s 1 ?e ?s "[]" "0x2C" "[]" "''disk''"] 1
    by blast
  from 0 1 2 3 4 show ?thesis by blast
qed


section \<open>The ranking\<close>

lemma probe_delims_candidates:
  "probe_delims ds r n prob sr wr = Some (Inr (prob', n', sr', wr')) \<Longrightarrow>
     \<exists>ts. trials ds r n sr wr = Some (Inr ts) \<and> map fst ts = ds \<and> prob' = prob @ candidates ts"
proof (induction ds arbitrary: r n prob sr wr)
  case Nil
  then show ?case by simp
next
  case (Cons d ds)
  let ?s = "\<lparr>src = sr, w = wr, buf = [], err = None\<rparr>"
  from Cons.prems obtain n1 nums s1 where pl: "probe_loop (Read d r) 0 n [] ?s = Some (Inr (n1, nums, s1))"
    by (auto split: option.splits sum.splits)
  show ?case
  proof (cases "nums = []")
    case True
    with Cons.prems pl have "probe_delims ds Buf n1 prob (src s1) (w s1) = Some (Inr (prob', n', sr', wr'))"
      by simp
    moreover have "genstatdata [] = None" by (simp add: genstatdata_None)
    ultimately show ?thesis using Cons.IH [of Buf n1 prob "src s1" "w s1"] pl True by auto
  next
    case False
    then obtain st where st: "genstatdata nums = Some st" using genstatdata_Some by blast
    let ?c = "\<lparr> Min_v = Min_v st, LQ = LQ st, Median = Median st, UQ = UQ st,
                  Max_v = Max_v st, Mean = Mean st, Stddev = Stddev st,
                  Parsedrecords = int (length nums), Delimiter = d \<rparr>"
    from Cons.prems pl False st
    have "probe_delims ds Buf n1 (prob @ [?c]) (src s1) (w s1) = Some (Inr (prob', n', sr', wr'))"
      by simp
    from Cons.IH [OF this] pl st show ?thesis by auto
  qed
qed

text \<open>
  When \<open>Probe\<close> returns a result, every configured delimiter had its trial, and the
  result lists the candidates of the trials (for each delimiter whose trial parsed at
  least one record, the summary \<open>genstatdata\<close> gives of its sample), put in order by the
  insertion sort with \<open>Less\<close>.
\<close>

lemma Probe_candidates:
  assumes "Probe p sr = Some (Inr res)"
  shows "\<exists>ts. trials (Delimiters p) Orig (RecordstoProbe p) sr [] = Some (Inr ts) \<and>
           map fst ts = Delimiters p \<and>
           CSVprobability res = insertionSort Less (candidates ts)"
proof -
  from assms obtain sr' wr' where run: "Probe_run p sr = Some (Inr (res, sr', wr'))"
    using Probe_Inr_run by blast
  then obtain prob where pd: "probe_delims (Delimiters p) Orig (RecordstoProbe p) [] sr [] = Some (Inr (prob, ActualLines res, sr', wr'))"
    and cs: "CSVprobability res = insertionSort Less prob"
    by (auto simp: Probe_run_def split: option.splits sum.splits)
  from probe_delims_candidates [OF pd] cs show ?thesis by auto
qed

lemma candidates_Stddev:
  "c \<in> set (candidates ts) \<Longrightarrow> Stddev c = NaN \<or> (\<exists>x. Stddev c = Num x)"
proof (induction ts)
  case Nil
  then show ?case by simp
next
  case (Cons t ts)
  obtain d nums where t: "t = (d, nums)" by (cases t) auto
  show ?case
  proof (cases "genstatdata nums")
    case None
    with Cons t show ?thesis by simp
  next
    case (Some st)
    then have "Stddev st = NaN \<or> (\<exists>x. Stddev st = Num x)"
      by (auto simp: genstatdata_def Let_def Sqrt_def split: if_splits prod.splits)
    with Cons t Some show ?thesis by auto
  qed
qed

text \<open>
  When no candidate's \<open>Stddev\<close> is \<open>NaN\<close>, the coefficients of variation are numbers
  and the candidates are in ascending order of them.
\<close>

lemma Probe_sorted:
  assumes "Probe p sr = Some (Inr res)" "\<forall>c\<in>set (CSVprobability res). Stddev c \<noteq> NaN"
  shows "\<exists>key. (\<forall>c\<in>set (CSVprobability res). cv c = Num (key c)) \<and>
           sorted_wrt (\<lambda>a b. key a \<le> key b) (CSVprobability res)"
proof -
  define key where "key c = (case cv c of Num x \<Rightarrow> x | _ \<Rightarrow> 0)" for c
  from Probe_candidates [OF assms(1)] obtain ts where
    cs: "CSVprobability res = insertionSort Less (candidates ts)" by blast
  from assms(1) obtain sr' wr' where run: "Probe_run p sr = Some (Inr (res, sr', wr'))"
    using Probe_Inr_run by blast
  have mean: "1 \<le> Mean c" if "c \<in> set (CSVprobability res)" for c
  proof (cases "Delimiters p")
    case Nil
    with run that show ?thesis by (auto simp: Probe_run_Nil)
  next
    case (Cons d ds)
    from Probe_run_facts [OF run Cons] that show ?thesis by (auto simp: cand_ok_def)
  qed
  have num: "cv c = Num (key c)" if "c \<in> set (CSVprobability res)" for c
  proof -
    from that cs have "c \<in> set (candidates ts)" by (simp add: set_insertionSort)
    from candidates_Stddev [OF this] assms(2) that obtain x where "Stddev c = Num x" by auto
    with mean [OF that] show ?thesis by (simp add: key_def cv_def float64_div_def)
  qed
  have "\<forall>a\<in>set (candidates ts). \<forall>b\<in>set (candidates ts). Less a b = (key a < key b)"
  proof (intro ballI)
    fix a b assume "a \<in> set (candidates ts)" "b \<in> set (candidates ts)"
    then have "cv a = Num (key a)" "cv b = Num (key b)"
      using num cs by (simp_all add: set_insertionSort)
    then show "Less a b = (key a < key b)" by (simp add: Less_def cv_def)
  qed
  from sorted_insertionSort [OF this] num cs show ?thesis by auto
qed

text \<open>
  The summaries of the samples \<open>1, 1, 1, 1, 6\<close> and \<open>1, 1, 1, 1, 1\<close>; all the values
  computed are small integers.
\<close>

lemma genstatdata_one_six:
  "genstatdata [1, 1, 1, 1, 6] =
     Some \<lparr> Min_v = 1, LQ = 1, Median = 1, UQ = 1, Max_v = 6, Mean = 2, Stddev = Num 2 \<rparr>"
  by (simp add: genstatdata_def sum_squaresum_def wrap64_def float64_of_def Sqrt_def Let_def)

lemma genstatdata_ones:
  "genstatdata [1, 1, 1, 1, 1] =
     Some \<lparr> Min_v = 1, LQ = 1, Median = 1, UQ = 1, Max_v = 1, Mean = 1, Stddev = Num 0 \<rparr>"
  by (simp add: genstatdata_def sum_squaresum_def wrap64_def float64_of_def Sqrt_def Let_def)

text \<open>
  C1. The claim says that the candidates are returned in ascending order of their
  coefficient of variation. Take five records, the first four made of \<open>33554455\<close>
  semicolons and the fifth of five commas and \<open>33554456\<close> semicolons, and the default
  delimiters: the samples are \<open>1, 1, 1, 1, 6\<close> for the comma, \<open>33554456\<close> (four times),
  \<open>33554457\<close> for the semicolon, and five times \<open>1\<close> for \<open>#\<close> and for \<open>|\<close>. The semicolon's
  \<open>Stddev\<close> is \<open>NaN\<close>, every comparison with it is false, and the sort leaves the list
  as it was built: the comma, with coefficient of variation 1, stands before \<open>#\<close> and
  \<open>|\<close>, whose coefficient of variation is 0.
\<close>

theorem C1_ranking_not_ascending:
  "map (\<lambda>c. (Delimiter c, cv c))
     (insertionSort Less
        (candidates [(0x2C, [1, 1, 1, 1, 6]),
                     (0x3B, [33554456, 33554456, 33554456, 33554456, 33554457]),
                     (0x23, [1, 1, 1, 1, 1]),
                     (0x7C, [1, 1, 1, 1, 1])])) =
     [(0x2C, Num 1), (0x3B, NaN), (0x23, Num 0), (0x7C, Num 0)]"
  by (simp add: genstatdata_one_six genstatdata_sample genstatdata_ones insertionSort_def
      Less_def cv_def float64_div_def)

section \<open>Replay through the tee\<close>

text \<open>
  From the second trial on \<open>r\<close> is \<open>w\<close>, so the trial reads through
  \<open>io.TeeReader(w, w)\<close>: what a read takes from the front of the buffer it writes to its
  back, and the buffer never runs out. If the second trial's first \<open>Read\<close> does not
  return, neither does \<open>Probe\<close>.
\<close>

lemma probe_delims_no_return:
  assumes "probe_loop (Read d Orig) 0 n [] \<lparr>src = sr, w = [], buf = [], err = None\<rparr>
             = Some (Inr (n1, nums, s1))"
    and "Read d2 Buf \<lparr>src = src s1, w = w s1, buf = [], err = None\<rparr> = None" and "0 < n1"
  shows "probe_delims (d # d2 # ds) Orig n [] sr [] = None"
proof (cases "nums = []")
  case True
  with assms show ?thesis
    by (simp add: probe_loop.simps [of "Read d2 Buf" 0 n1])
next
  case False
  then obtain st where "genstatdata nums = Some st" using genstatdata_Some by blast
  with False assms show ?thesis
    by (simp add: probe_loop.simps [of "Read d2 Buf" 0 n1])
qed

lemma IndexByte_None: "c \<notin> set b \<Longrightarrow> IndexByte b c = None"
  by (induction b) auto

lemma TeeReader_Read_endless:
  assumes "endless s" "0 < k" "TeeReader_Read Buf k s = ((p, e), s')"
  shows "p \<noteq> [] \<and> e = None \<and> nl \<notin> set p \<and> endless s'"
proof -
  from assms have p: "p = take k (w s)" and e: "e = None"
    and s': "s' = s\<lparr>w := drop k (w s) @ take k (w s)\<rparr>"
    by (auto simp: endless_def TeeReader_Read_def reader_Read_def Buffer_Read_def Buffer_Write_def
        Let_def split: if_splits)
  from assms(1) have "nl \<notin> set (take k (w s))" "nl \<notin> set (drop k (w s))"
    by (auto simp: endless_def dest: in_set_takeD in_set_dropD)
  with p e s' assms(1,2) show ?thesis by (auto simp: endless_def)
qed

lemma fill_endless:
  assumes "endless s" "length (buf s) < defaultBufSize"
  shows "endless (fill Buf s)"
proof -
  let ?k = "defaultBufSize - length (buf s)"
  obtain p e s' where t: "TeeReader_Read Buf ?k s = ((p, e), s')"
    by (metis prod.exhaust)
  from assms(2) have k: "0 < ?k" by simp
  from TeeReader_Read_endless [OF assms(1) k t] TeeReader_Read_buf_err [OF t]
  have "fill Buf s = s'\<lparr>buf := buf s @ p\<rparr>" and "endless (s'\<lparr>buf := buf s @ p\<rparr>)"
    using t by (auto simp: fill_def fill_loop_pos endless_def)
  then show ?thesis by simp
qed

lemma ReadSlice_endless:
  "endless s \<Longrightarrow> \<exists>line s'. ReadSlice Buf s = ((line, Some ErrBufferFull), s') \<and> endless s'"
proof (induction Buf s rule: ReadSlice.induct)
  case (1 s)
  from "1.prems" have ib: "IndexByte (buf s) nl = None" and e: "err s = None"
    by (auto simp: endless_def IndexByte_None)
  show ?case
  proof (cases "defaultBufSize \<le> length (buf s)")
    case True
    with ib e "1.prems" show ?thesis
      by (auto simp: ReadSlice.simps [of Buf s] endless_def)
  next
    case False
    then have "endless (fill Buf s)" using fill_endless "1.prems" by simp
    from "1.hyps" [OF ib _ False this] e obtain line s' where
      "ReadSlice Buf (fill Buf s) = ((line, Some ErrBufferFull), s')" "endless s'"
      by auto
    with ib e False show ?thesis
      by (auto simp: ReadSlice.simps [of Buf s])
  qed
qed

lemma readLine_more_endless_aux:
  assumes "readLine_more r0 raw0 s0 = Some y0"
  shows "r0 = Buf \<longrightarrow> \<not> endless s0"
proof (rule readLine_more.raw_induct [where P = "\<lambda>r raw s y. r = Buf \<longrightarrow> \<not> endless s", OF _ assms], goal_cases)
  case (1 rlm r raw s y)
  show ?case
  proof (intro impI notI)
    assume r: "r = Buf" and en: "endless s"
    from ReadSlice_endless [OF en] obtain line s' where
      rs: "ReadSlice Buf s = ((line, Some ErrBufferFull), s')" and en': "endless s'"
      by blast
    with 1(2) r have "rlm Buf (raw @ line) s' = Some y" by simp
    from 1(1) [OF this] en' show False by simp
  qed
qed

lemma readLine_endless: "endless s \<Longrightarrow> readLine Buf s = None"
proof -
  assume en: "endless s"
  from ReadSlice_endless [OF en] obtain line s' where
    rs: "ReadSlice Buf s = ((line, Some ErrBufferFull), s')" and en': "endless s'"
    by blast
  have "readLine_more Buf line s' = None"
  proof (cases "readLine_more Buf line s'")
    case None
    then show ?thesis .
  next
    case (Some y)
    from readLine_more_endless_aux [OF this] en' show ?thesis by simp
  qed
  with rs show ?thesis by (simp add: readLine_def)
qed

lemma Read_endless: "endless s \<Longrightarrow> validDelim d \<Longrightarrow> Read d Buf s = None"
  by (simp add: Read_def first_line.simps [of Buf s] readLine_endless)

text \<open>
  A stream without a newline. The first trial reads the one record \<open>abc\<close> and the end
  of the stream; the second trial reads the buffer \<open>abc\<close> through the tee that writes
  it back, finds no end of line, and \<open>Probe\<close> does not return.
\<close>

lemma Probe_no_newline:
  "Probe \<lparr> RecordstoProbe = 200, Delimiters = [0x2C, 0x3B] \<rparr> no_newline = None"
proof -
  let ?s0 = "\<lparr>src = \<lparr> blocks = [''abc''], final = EndOfStream \<rparr>, w = [], buf = [], err = None\<rparr>"
  let ?s1 = "\<lparr>src = \<lparr> blocks = [], final = EndOfStream \<rparr>, w = ''abc'', buf = [], err = None\<rparr>"
  have first: "probe_loop (Read 0x2C Orig) 0 200 [] ?s0 = Some (Inr (1, [1], ?s1))"
    by (simp add: csv_eval)
  have "endless ?s1" by (simp add: endless_def nl_def)
  moreover have "validDelim 0x3B" by (simp add: validDelim_def ValidRune_def)
  ultimately have "Read 0x3B Buf ?s1 = None" by (rule Read_endless)
  from first have "probe_delims [0x2C, 0x3B] Orig 200 [] \<lparr> blocks = [''abc''], final = EndOfStream \<rparr> [] = None"
    by (rule probe_delims_no_return) (simp_all add: \<open>Read 0x3B Buf ?s1 = None\<close>)
  then show ?thesis
    by (simp add: Probe_def Probe_run_def no_newline_def)
qed

section \<open>Replay of quoted records\<close>

lemma quoted_rows_Suc: "quoted_rows (Suc k) = quoted_row @ quoted_rows k"
  by (simp add: quoted_rows_def)

lemma quoted_rows_0 [simp]: "quoted_rows 0 = []"
  by (simp add: quoted_rows_def)

lemma length_quoted_rows: "length (quoted_rows n) = 10 * n"
  by (induction n) (simp_all add: quoted_rows_Suc quoted_row_def)

lemma quoted_rows_nonempty: "0 < n \<Longrightarrow> quoted_rows n \<noteq> []"
  by (cases n) (simp_all add: quoted_rows_Suc quoted_row_def)

lemma ReadSlice_quoted_rows:
  assumes "buf s = quoted_rows (Suc k)"
  shows "ReadSlice r s = ((quoted_row, None), s\<lparr>buf := quoted_rows k\<rparr>)"
  using assms
  by (simp add: ReadSlice.simps [of r s] quoted_rows_Suc quoted_row_def nl_def quote_def)

lemma fill_replaying:
  assumes "replaying n s" "buf s = []" "0 < n" "10 * n \<le> 4096"
  shows "fill Buf s = s\<lparr>buf := quoted_rows n\<rparr>"
  using assms quoted_rows_nonempty [of n] length_quoted_rows [of n]
  by (simp add: replaying_def fill_def fill_loop_pos TeeReader_Read_def reader_Read_def
      Buffer_Read_def Buffer_Write_def defaultBufSize_def Let_def)

lemma readLine_replaying:
  assumes "replaying n s" "0 < n" "10 * n \<le> 4096"
  shows "\<exists>s'. readLine Buf s = Some ((quoted_row, None), s') \<and> replaying n s'"
proof -
  from assms(1) obtain k where k: "k \<le> n" "buf s = quoted_rows k" and e: "err s = None"
    and w: "w s = quoted_rows n"
    by (auto simp: replaying_def)
  have norm: "normalize_line (quoted_row, None) = (quoted_row, None)"
    by (simp add: normalize_line_def quoted_row_def nl_def cr_def quote_def)
  show ?thesis
  proof (cases k)
    case (Suc j)
    with k have "ReadSlice Buf s = ((quoted_row, None), s\<lparr>buf := quoted_rows j\<rparr>)"
      by (simp add: ReadSlice_quoted_rows)
    moreover have "replaying n (s\<lparr>buf := quoted_rows j\<rparr>)"
      using k Suc e w by (auto simp: replaying_def intro: exI [of _ j])
    ultimately show ?thesis by (simp add: readLine_def norm)
  next
    case 0
    with k have b: "buf s = []" by simp
    obtain m where m: "n = Suc m" using assms(2) by (cases n) auto
    have f: "fill Buf s = s\<lparr>buf := quoted_rows n\<rparr>"
      using assms(1) b assms(2,3) by (rule fill_replaying)
    have "ReadSlice Buf s = ReadSlice Buf (fill Buf s)"
      using b e by (simp add: ReadSlice.simps [of Buf s] defaultBufSize_def)
    also have "\<dots> = ((quoted_row, None), s\<lparr>buf := quoted_rows m\<rparr>)"
      unfolding f using ReadSlice_quoted_rows [of "s\<lparr>buf := quoted_rows n\<rparr>" m Buf] m by simp
    finally have "ReadSlice Buf s = ((quoted_row, None), s\<lparr>buf := quoted_rows m\<rparr>)" .
    moreover have "replaying n (s\<lparr>buf := quoted_rows m\<rparr>)"
      using m e w by (auto simp: replaying_def intro: exI [of _ m])
    ultimately show ?thesis by (simp add: readLine_def norm)
  qed
qed

text \<open>
  With the semicolon as delimiter the opening quote of a row starts a quoted field.
  No later quote is followed by a semicolon or by the end of its line, so with
  \<open>LazyQuotes\<close> each is taken as part of the field, and the field goes on into the next
  line. The lines the parser holds inside the field are a row, a row after its first
  quote, and a row after its second quote.
\<close>

lemma parseField_replaying_aux:
  assumes "parseField c0 r0 q0 l0 e0 f0 s0 = Some y0" "0 < n" "10 * n \<le> 4096"
  shows "\<not> (c0 = '';'' \<and> r0 = Buf \<and> q0 \<and> e0 = None \<and> replaying n s0 \<and>
            l0 \<in> {quoted_row, tl quoted_row, drop 3 quoted_row})"
proof (rule parseField.raw_induct [where P = "\<lambda>c r q l e f s y.
    \<not> (c = '';'' \<and> r = Buf \<and> q \<and> e = None \<and> replaying n s \<and>
       l \<in> {quoted_row, tl quoted_row, drop 3 quoted_row})", OF _ assms(1)], goal_cases)
  case (1 pf c r q l e f s y)
  note ih = 1(1) and body = 1(2)
  show ?case
  proof (intro notI, elim conjE)
    assume c: "c = '';''" and r: "r = Buf" and q: "q" and e: "e = None" and rp: "replaying n s"
      and l: "l \<in> {quoted_row, tl quoted_row, drop 3 quoted_row}"
    from l consider "l = quoted_row" | "l = tl quoted_row" | "l = drop 3 quoted_row" by auto
    then show False
    proof cases
      case 1
      with body c r q e have "pf c r True (tl quoted_row) None f s = Some y"
        by (simp add: quoted_row_def quote_def nl_def lengthNL_def HasPrefix_def Let_def)
      from ih [OF this] c r rp show False by simp
    next
      case 2
      with body c r q e have "pf c r True (drop 3 quoted_row) None f s = Some y"
        by (simp add: quoted_row_def quote_def nl_def lengthNL_def HasPrefix_def Let_def)
      from ih [OF this] c r rp show False by simp
    next
      case 3
      from readLine_replaying [OF rp assms(2,3)] obtain s' where
        rl: "readLine Buf s = Some ((quoted_row, None), s')" and rp': "replaying n s'"
        by blast
      with 3 body c r q e have "pf c r True quoted_row None f s' = Some y"
        by (simp add: quoted_row_def quote_def nl_def lengthNL_def HasPrefix_def Let_def)
      from ih [OF this] c r rp' show False by simp
    qed
  qed
qed

lemma Read_replaying:
  assumes "replaying n s" "0 < n" "10 * n \<le> 4096"
  shows "Read 0x3B Buf s = None"
proof -
  from readLine_replaying [OF assms] obtain s' where
    rl: "readLine Buf s = Some ((quoted_row, None), s')" and rp': "replaying n s'"
    by blast
  have fl: "first_line Buf s = Some ((quoted_row, None), s')"
    using rl by (simp add: first_line.simps [of Buf s] lengthNL_def quoted_row_def nl_def quote_def)
  have "parseField '';'' Buf True (tl quoted_row) None 0 s' = None"
  proof (cases "parseField '';'' Buf True (tl quoted_row) None 0 s'")
    case None
    then show ?thesis .
  next
    case (Some y)
    from parseField_replaying_aux [OF this assms(2,3)] rp' show ?thesis by simp
  qed
  moreover have "parseField '';'' Buf False quoted_row None 0 s'
      = parseField '';'' Buf True (tl quoted_row) None 0 s'"
    by (subst parseField.simps) (simp add: quoted_row_def quote_def)
  ultimately have "parseField '';'' Buf False quoted_row None 0 s' = None"
    by simp
  with fl show ?thesis
    by (simp add: Read_def validDelim_def ValidRune_def EncodeRune_semicolon)
qed


lemma replicate_numeral_Cons: "replicate (numeral k) x = x # replicate (pred_numeral k) x"
  by (simp add: numeral_eq_Suc)

lemmas quoted_eval = quoted_csv_def quoted_rows_def quoted_row_def replicate_numeral_Cons

lemma replaying_start:
  "replaying n \<lparr>src = sr, w = quoted_rows n, buf = [], err = None\<rparr>"
  by (auto simp: replaying_def intro: exI [of _ 0])

lemma first_trial_quoted_5:
  "probe_loop (Read 0x2C Orig) 0 200 [] \<lparr>src = quoted_csv 5, w = [], buf = [], err = None\<rparr> =
     Some (Inr (5, [4, 4, 4, 4, 4],
       \<lparr>src = \<lparr>blocks = [], final = EndOfStream\<rparr>, w = quoted_rows 5, buf = [], err = None\<rparr>))"
  by (simp add: quoted_eval csv_eval)

text \<open>
  C5. The claim says that for every stream \<open>ActualLines\<close> is the smaller of the number
  of records and the budget, 5 for a stream of five records. On five records
  \<open>"a",b,c,d\<close> the default prober's first trial reads the five records and the end of
  the stream; the second trial, with the semicolon, reads the buffer through the tee
  that writes it back, takes the quote that opens each line for the start of a quoted
  field that no line closes, and never comes to the end of its first record: \<open>Probe\<close>
  does not return.
\<close>

theorem C5_quoted_records_no_return:
  "Probe NewProber (quoted_csv 5) = None \<and>
   stream_records 0x2C 0 (fresh (quoted_csv 5)) = Some (Inr 5)"
proof
  have "Read 0x3B Buf \<lparr>src = sr, w = quoted_rows 5, buf = [], err = None\<rparr> = None" for sr
    by (rule Read_replaying [OF replaying_start]) simp_all
  then have "probe_delims [0x2C, 0x3B, 0x23, 0x7C] Orig 200 [] (quoted_csv 5) [] = None"
    by (intro probe_delims_no_return [OF first_trial_quoted_5]) simp_all
  then show "Probe NewProber (quoted_csv 5) = None"
    by (simp add: Probe_def Probe_run_def NewProber_def DefaultDelims_def ProbeRecords_def)
next
  show "stream_records 0x2C 0 (fresh (quoted_csv 5)) = Some (Inr 5)"
    by (simp add: quoted_eval stream_eval)
qed


lemma first_trial_quoted_50:
  "probe_loop (Read 0x2C Orig) 0 200 [] \<lparr>src = quoted_csv 50, w = [], buf = [], err = None\<rparr> =
     Some (Inr (50, replicate 50 4,
       \<lparr>src = \<lparr>blocks = [], final = EndOfStream\<rparr>, w = quoted_rows 50, buf = [], err = None\<rparr>))"
  by (simp add: quoted_eval csv_eval)

text \<open>
  C7. The claim says that on every stream of 50 records of four comma-separated fields
  each, probed with comma and semicolon, the comma candidate comes first with
  \<open>Min = Max = 4\<close>, \<open>Mean = 4\<close> and \<open>Stddev = 0\<close>. On fifty records \<open>"a",b,c,d\<close> the trial
  with the comma reads fifty records of four fields, a sample with that summary, and
  the trial with the semicolon never comes to the end of its first record: \<open>Probe\<close>
  does not return.
\<close>

theorem C7_quoted_uniform_no_return:
  "map_option (map_sum id (\<lambda>(n, numrecords, s). (n, numrecords)))
     (probe_loop (Read 0x2C Orig) 0 ProbeRecords [] (fresh (quoted_csv 50))) =
     Some (Inr (50, replicate 50 4)) \<and>
   genstatdata (replicate 50 4) =
     Some \<lparr> Min_v = 4, LQ = 4, Median = 4, UQ = 4, Max_v = 4, Mean = 4, Stddev = Num 0 \<rparr> \<and>
   Probe \<lparr> RecordstoProbe = ProbeRecords, Delimiters = [0x2C, 0x3B] \<rparr> (quoted_csv 50) = None"
proof (intro conjI)
  show "map_option (map_sum id (\<lambda>(n, numrecords, s). (n, numrecords)))
     (probe_loop (Read 0x2C Orig) 0 ProbeRecords [] (fresh (quoted_csv 50))) =
     Some (Inr (50, replicate 50 4))"
    by (simp add: ProbeRecords_def fresh_def first_trial_quoted_50)
next
  show "genstatdata (replicate 50 4) =
     Some \<lparr> Min_v = 4, LQ = 4, Median = 4, UQ = 4, Max_v = 4, Mean = 4, Stddev = Num 0 \<rparr>"
    by (simp add: replicate_numeral_Cons genstatdata_def sum_squaresum_def wrap64_def
        float64_of_def Sqrt_def Let_def)
next
  have "Read 0x3B Buf \<lparr>src = sr, w = quoted_rows 50, buf = [], err = None\<rparr> = None" for sr
    by (rule Read_replaying [OF replaying_start]) simp_all
  then have "probe_delims [0x2C, 0x3B] Orig 200 [] (quoted_csv 50) [] = None"
    by (intro probe_delims_no_return [OF first_trial_quoted_50]) simp_all
  then show "Probe \<lparr> RecordstoProbe = ProbeRecords, Delimiters = [0x2C, 0x3B] \<rparr> (quoted_csv 50) = None"
    by (simp add: Probe_def Probe_run_def ProbeRecords_def)
qed


section \<open>Replay of a long record\<close>

lemma IndexByte_replicate:
  "x \<noteq> c \<Longrightarrow> IndexByte (replicate n x @ ys) c = map_option (\<lambda>i. n + i) (IndexByte ys c)"
  by (induction n) (cases "IndexByte ys c"; simp)+

lemma IndexByte_replicate_None:
  "x \<noteq> c \<Longrightarrow> IndexByte (replicate n x) c = None"
  using IndexByte_replicate [of x c n "[]"] by simp

lemma Index_replicate:
  "x \<noteq> c \<Longrightarrow> Index (replicate n x @ ys) [c] = map_option (\<lambda>i. n + i) (Index ys [c])"
  by (induction n) (cases "Index ys [c]"; simp add: HasPrefix_def)+

lemma Index_replicate_None:
  "x \<noteq> c \<Longrightarrow> Index (replicate n x) [c] = None"
  using Index_replicate [of x c n "[]"] by simp

lemma replicate_app:
  "replicate a x @ replicate b x = replicate (a + b) x"
  "replicate a x @ (replicate b x @ ys) = replicate (a + b) x @ ys"
  by (simp_all add: replicate_add)

lemma hd_replicate_app: "0 < n \<Longrightarrow> hd (replicate n x @ ys) = x"
  by (cases n) auto

lemmas replicate_eval = IndexByte_replicate IndexByte_replicate_None Index_replicate
  Index_replicate_None replicate_app hd_replicate_app nth_append last_append

text \<open>
  C2. The claim says that replay neither loses nor duplicates bytes, so that the
  records recoverable from the buffer after any number of passes are those of a direct
  parse of the input. Take a stream of one record of 5001 bytes, longer than the
  buffered reader's 4096 bytes. The first trial reads it to its end. The second trial
  reads the buffer through \<open>io.TeeReader(w, w)\<close> in two pieces, each written back behind
  the rest: after the probe the buffer holds the bytes of the stream turned round, the
  newline stands in the middle, and the buffer holds two records where the stream
  holds one.
\<close>

theorem C2_replay_buffer_turned:
  "map_option (map_sum id snd)
     (Probe_run \<lparr> RecordstoProbe = 200, Delimiters = [0x2C, 0x3B] \<rparr>
                \<lparr> blocks = [long_line], final = EndOfStream \<rparr>) =
     Some (Inr (\<lparr> blocks = [], final = EndOfStream \<rparr>, long_line_rotated)) \<and>
   stream_records 0x2C 0 (fresh \<lparr> blocks = [long_line], final = EndOfStream \<rparr>) = Some (Inr 1) \<and>
   stream_records 0x2C 0 (fresh \<lparr> blocks = [long_line_rotated], final = EndOfStream \<rparr>) = Some (Inr 2)"
  by (simp add: long_line_def long_line_rotated_def probe_eval stream_eval replicate_eval)

end
